theory Spec2Isabelle
  imports Main "HOL-Library.Sublist" "HOL-Library.AList" "HOL-Library.List_Lexorder"
begin

section \<open>Python strings and pathlib paths\<close>

text \<open>
  A Python \<open>str\<close> is a sequence of Unicode code points, so it is modelled as a list of
  naturals (\<open>len\<close> counts code points, slicing is by code point). The ASCII literals of
  the source are written through \<open>u\<close>. \<open>x in s\<close> on strings is \<^const>\<open>sublist\<close>,
  \<open>s.startswith(x)\<close> is \<^const>\<open>prefix\<close> and \<open>s.endswith(x)\<close> is \<^const>\<open>suffix\<close>.
\<close>

type_synonym ustr = "nat list"

definition u :: "string \<Rightarrow> ustr" where
  "u s = map of_char s"

definition slash :: nat where
  "slash = 47"

text \<open>
  A \<open>pathlib.Path\<close> on POSIX, always absolute in this program (the vault root is an
  absolute directory and every other path is joined to it): the list of its segments
  after the root. pathlib keeps \<open>..\<close> segments and drops empty and \<open>.\<close> segments when it
  parses a string. \<open>str(path)\<close> is \<open>str_path\<close>; \<open>path.parts\<close> is the root \<open>/\<close> followed by
  the segments.
\<close>

type_synonym path = "ustr list"

definition str_path :: "path \<Rightarrow> ustr" where
  "str_path p = (if p = [] then [slash] else concat (map (\<lambda>s. slash # s) p))"

definition parts :: "path \<Rightarrow> ustr list" where
  "parts p = [slash] # p"

text \<open>Segments as pathlib produces them: non-empty and free of the separator.\<close>

definition wf_path :: "path \<Rightarrow> bool" where
  "wf_path p = list_all (\<lambda>s. s \<noteq> [] \<and> slash \<notin> set s) p"

section \<open>HiddenFilter\<close>

text \<open>
  \<^verbatim>\<open>
  def is_hidden_or_system(path: Path) -> bool:
      path_str = str(path)
      return ".obsidian" in path_str or ".trash" in path_str or any(
          part.startswith(".") for part in path.parts)
  \<close>
\<close>

definition is_hidden_or_system :: "path \<Rightarrow> bool" where
  "is_hidden_or_system p =
     (let path_str = str_path p
      in sublist (u ''.obsidian'') path_str \<or> sublist (u ''.trash'') path_str \<or>
         list_ex (\<lambda>part. prefix (u ''.'') part) (parts p))"

text \<open>
  The classification as the specification words it: a segment that starts with a dot, or
  the metadata or trash folder name as a whole segment.
\<close>

definition hidden_by_whole_segment :: "path \<Rightarrow> bool" where
  "hidden_by_whole_segment p =
     list_ex (\<lambda>s. prefix (u ''.'') s \<or> s = u ''.obsidian'' \<or> s = u ''.trash'') p"

text \<open>What the code computes, segment by segment: the two names anywhere inside a segment.\<close>

definition hidden_by_segment :: "ustr \<Rightarrow> bool" where
  "hidden_by_segment s =
     (prefix (u ''.'') s \<or> sublist (u ''.obsidian'') s \<or> sublist (u ''.trash'') s)"

section \<open>The filesystem\<close>

text \<open>
  The program's state is the directory tree it works on. It is modelled as an association
  list from canonical absolute paths (no \<open>..\<close> segment) to nodes; the root directory
  always exists. The order of the list is the order in which the operating system
  enumerates entries, which \<open>rglob\<close> inherits. A regular file holds either bytes that are
  the UTF-8 encoding of a text (kept as that text: the encoding is injective) or bytes
  that do not decode (kept as their number). Timestamps are natural numbers; the
  \<open>modified\<close> field of a result, which the source renders with \<open>isoformat\<close> and compares
  as a string, is kept as that number. Symbolic links, permissions, name-length limits
  and concurrent changes by other processes are outside the model.
\<close>

datatype body = Text ustr | Undecodable nat

datatype node = File nat body | Dir nat

type_synonym fs = "(path \<times> node) list"

datatype oserror = ENOENT | ENOTDIR | EEXIST | EISDIR | ENOTEMPTY | EINVAL | EBUSY

datatype exn = OSError oserror | UnicodeDecodeError | UnicodeEncodeError | ValueError
  | KeyError ustr

definition node_at :: "fs \<Rightarrow> path \<Rightarrow> node option" where
  "node_at fs p = (if p = [] then Some (Dir 0) else map_of fs p)"

fun is_dir_node :: "node option \<Rightarrow> bool" where
  "is_dir_node (Some (Dir _)) = True"
| "is_dir_node _ = False"

definition utf8_width :: "nat \<Rightarrow> nat" where
  "utf8_width c = (if c < 128 then 1 else if c < 2048 then 2 else if c < 65536 then 3 else 4)"

fun st_mtime :: "node \<Rightarrow> nat" where
  "st_mtime (File m _) = m"
| "st_mtime (Dir m) = m"

text \<open>The size of a directory is specific to the filesystem; the model reports 0.\<close>

fun st_size :: "node \<Rightarrow> nat" where
  "st_size (File _ (Text t)) = sum_list (map utf8_width t)"
| "st_size (File _ (Undecodable n)) = n"
| "st_size (Dir _) = 0"

text \<open>
  Path resolution by the operating system: one segment at a time from the root, \<open>..\<close>
  moving to the parent (the root is its own parent), every segment before the last
  required to be a directory.
\<close>

definition step :: "path \<Rightarrow> ustr \<Rightarrow> path" where
  "step cur s = (if s = u ''..'' then butlast cur else cur @ [s])"

fun walk :: "fs \<Rightarrow> path \<Rightarrow> path \<Rightarrow> oserror + path" where
  "walk fs cur [] = (case node_at fs cur of None \<Rightarrow> Inl ENOENT | Some _ \<Rightarrow> Inr cur)"
| "walk fs cur (s # ss) =
     (case node_at fs cur of
        None \<Rightarrow> Inl ENOENT
      | Some (File _ _) \<Rightarrow> Inl ENOTDIR
      | Some (Dir _) \<Rightarrow> walk fs (step cur s) ss)"

definition lookup :: "fs \<Rightarrow> path \<Rightarrow> oserror + path" where
  "lookup fs raw = walk fs [] raw"

text \<open>\<open>Path.exists()\<close>: false on ENOENT and ENOTDIR.\<close>

definition exists :: "fs \<Rightarrow> path \<Rightarrow> bool" where
  "exists fs raw = (case lookup fs raw of Inl _ \<Rightarrow> False | Inr _ \<Rightarrow> True)"

definition is_dir :: "fs \<Rightarrow> path \<Rightarrow> bool" where
  "is_dir fs raw = (case lookup fs raw of Inl _ \<Rightarrow> False | Inr c \<Rightarrow> is_dir_node (node_at fs c))"

text \<open>\<open>Path.resolve()\<close>: without symbolic links, the lexical normal form.\<close>

definition resolve :: "path \<Rightarrow> path" where
  "resolve raw = foldl step [] raw"

definition stat :: "fs \<Rightarrow> path \<Rightarrow> exn + (nat \<times> nat)" where
  "stat fs raw =
     (case lookup fs raw of
        Inl e \<Rightarrow> Inl (OSError e)
      | Inr c \<Rightarrow> (case node_at fs c of
                   None \<Rightarrow> Inl (OSError ENOENT)
                 | Some n \<Rightarrow> Inr (st_mtime n, st_size n)))"

text \<open>
  \<open>Path.read_text(encoding="utf-8")\<close> opens the file in text mode with the default
  \<open>newline=None\<close>: on input \<open>\r\n\<close> and a lone \<open>\r\<close> are returned as \<open>\n\<close>.
\<close>

fun universal_newlines :: "ustr \<Rightarrow> ustr" where
  "universal_newlines [] = []"
| "universal_newlines [c] = (if c = 13 then [10] else [c])"
| "universal_newlines (c # d # cs) =
     (if c = 13 \<and> d = 10 then 10 # universal_newlines cs
      else if c = 13 then 10 # universal_newlines (d # cs)
      else c # universal_newlines (d # cs))"

definition read_text :: "fs \<Rightarrow> path \<Rightarrow> exn + ustr" where
  "read_text fs raw =
     (case lookup fs raw of
        Inl e \<Rightarrow> Inl (OSError e)
      | Inr c \<Rightarrow> (case node_at fs c of
                   Some (File _ (Text t)) \<Rightarrow> Inr (universal_newlines t)
                 | Some (File _ (Undecodable _)) \<Rightarrow> Inl UnicodeDecodeError
                 | Some (Dir _) \<Rightarrow> Inl (OSError EISDIR)
                 | None \<Rightarrow> Inl (OSError ENOENT)))"

text \<open>\<open>os.mkdir\<close>: the parent must resolve to a directory and the name must be free.\<close>

definition os_mkdir :: "nat \<Rightarrow> fs \<Rightarrow> path \<Rightarrow> oserror + fs" where
  "os_mkdir now fs raw =
     (if raw = [] then Inl EEXIST
      else case lookup fs (butlast raw) of
        Inl e \<Rightarrow> Inl e
      | Inr d \<Rightarrow>
          if \<not> is_dir_node (node_at fs d) then Inl ENOTDIR
          else if last raw = u ''..'' then Inl EEXIST
          else if node_at fs (d @ [last raw]) \<noteq> None then Inl EEXIST
          else Inr (AList.update (d @ [last raw]) (Dir now) fs))"

text \<open>
  \<^verbatim>\<open>
  def mkdir(self, mode=0o777, parents=False, exist_ok=False):
      try:
          os.mkdir(self, mode)
      except FileNotFoundError:
          if not parents or self.parent == self:
              raise
          self.parent.mkdir(parents=True, exist_ok=True)
          self.mkdir(mode, parents=False, exist_ok=exist_ok)
      except OSError:
          if not exist_ok or not self.is_dir():
              raise
  \<close>
  pathlib's method, at the two settings the program reaches, returning the exception (if
  any) and the filesystem as it is left, which keeps the directories made before a failure: \<open>mkdir_exist_ok\<close> is
  \<open>parents=False, exist_ok=True\<close> and \<open>mkdir_parents\<close> is \<open>parents=True, exist_ok=True\<close>.
  \<open>self.parent\<close> is lexical (\<^const>\<open>butlast\<close>), and the root is its own parent.
\<close>

definition mkdir_exist_ok :: "nat \<Rightarrow> fs \<Rightarrow> path \<Rightarrow> exn option \<times> fs" where
  "mkdir_exist_ok now fs raw =
     (case os_mkdir now fs raw of
        Inr fs' \<Rightarrow> (None, fs')
      | Inl e \<Rightarrow>
          if e = ENOENT then (Some (OSError ENOENT), fs)
          else if is_dir fs raw then (None, fs) else (Some (OSError e), fs))"

function mkdir_parents :: "nat \<Rightarrow> fs \<Rightarrow> path \<Rightarrow> exn option \<times> fs" where
  "mkdir_parents now fs raw =
     (case os_mkdir now fs raw of
        Inr fs' \<Rightarrow> (None, fs')
      | Inl e \<Rightarrow>
          if e = ENOENT then
            (if raw = [] then (Some (OSError ENOENT), fs)
             else case mkdir_parents now fs (butlast raw) of
               (Some x, fs1) \<Rightarrow> (Some x, fs1)
             | (None, fs1) \<Rightarrow> mkdir_exist_ok now fs1 raw)
          else if is_dir fs raw then (None, fs) else (Some (OSError e), fs))"
  by pat_completeness auto
termination
  by (relation "measure (\<lambda>(now, fs, raw). length raw)") auto

text \<open>
  \<open>Path.write_text(data, encoding="utf-8")\<close> opens the file for writing, which creates
  or truncates it, and then encodes and writes the text. A text with a surrogate code
  point does not encode: the error comes after the file has been emptied. On POSIX the
  text is written as it is (\<open>\n\<close> stays \<open>\n\<close>).
\<close>

definition open_w :: "nat \<Rightarrow> fs \<Rightarrow> path \<Rightarrow> oserror + (path \<times> fs)" where
  "open_w now fs raw =
     (if raw = [] then Inl EISDIR
      else case lookup fs (butlast raw) of
        Inl e \<Rightarrow> Inl e
      | Inr d \<Rightarrow>
          if \<not> is_dir_node (node_at fs d) then Inl ENOTDIR
          else if last raw = u ''..'' then Inl EISDIR
          else if is_dir_node (node_at fs (d @ [last raw])) then Inl EISDIR
          else Inr (d @ [last raw], AList.update (d @ [last raw]) (File now (Text [])) fs))"

definition encodable :: "ustr \<Rightarrow> bool" where
  "encodable t = list_all (\<lambda>c. c < 55296 \<or> (57343 < c \<and> c \<le> 1114111)) t"

definition write_text :: "nat \<Rightarrow> fs \<Rightarrow> path \<Rightarrow> ustr \<Rightarrow> exn option \<times> fs" where
  "write_text now fs raw data =
     (case open_w now fs raw of
        Inl e \<Rightarrow> (Some (OSError e), fs)
      | Inr (t, fs1) \<Rightarrow>
          if encodable data then (None, AList.update t (File now (Text data)) fs1)
          else (Some UnicodeEncodeError, fs1))"

text \<open>
  \<open>os.rename\<close> on POSIX: both names resolve through their parents; renaming a file onto
  itself does nothing; a file replaces a file; a directory moves with everything below
  it, onto a free name or an empty directory, never into itself.
\<close>

definition target :: "fs \<Rightarrow> path \<Rightarrow> oserror + path" where
  "target fs raw =
     (if raw = [] \<or> last raw = u ''..'' then Inl EBUSY
      else case lookup fs (butlast raw) of
        Inl e \<Rightarrow> Inl e
      | Inr d \<Rightarrow> if is_dir_node (node_at fs d) then Inr (d @ [last raw]) else Inl ENOTDIR)"

definition has_entries :: "fs \<Rightarrow> path \<Rightarrow> bool" where
  "has_entries fs d = list_ex (\<lambda>(k, n). strict_prefix d k) fs"

definition move_tree :: "path \<Rightarrow> path \<Rightarrow> fs \<Rightarrow> fs" where
  "move_tree s d fs =
     map (\<lambda>(k, n). if prefix s k then (d @ drop (length s) k, n) else (k, n)) (AList.delete d fs)"

definition os_rename :: "fs \<Rightarrow> path \<Rightarrow> path \<Rightarrow> oserror + fs" where
  "os_rename fs src dst =
     (case target fs src of
        Inl e \<Rightarrow> Inl e
      | Inr s \<Rightarrow>
         (case node_at fs s of
            None \<Rightarrow> Inl ENOENT
          | Some n \<Rightarrow>
             (case target fs dst of
                Inl e \<Rightarrow> Inl e
              | Inr d \<Rightarrow>
                  if s = d then Inr fs
                  else (case n of
                     File _ _ \<Rightarrow>
                       if is_dir_node (node_at fs d) then Inl EISDIR
                       else Inr (AList.update d n (AList.delete s fs))
                   | Dir _ \<Rightarrow>
                       if prefix s d then Inl EINVAL
                       else if node_at fs d \<noteq> None \<and> \<not> is_dir_node (node_at fs d) then Inl ENOTDIR
                       else if has_entries fs d then Inl ENOTEMPTY
                       else Inr (move_tree s d fs)))))"

text \<open>
  \<open>Path.rglob(pattern)\<close> with a pattern on the name only: every entry below the start
  directory that is reached through directories and whose name matches, each as the
  start path extended by the entry's segments below it. The start itself is not yielded;
  a start that is not a directory yields nothing.
\<close>

definition below :: "fs \<Rightarrow> path \<Rightarrow> path \<Rightarrow> bool" where
  "below fs c k =
     (strict_prefix c k \<and>
      list_all (\<lambda>j. is_dir_node (node_at fs (take j k))) [length c ..< length k])"

definition rglob :: "fs \<Rightarrow> path \<Rightarrow> (ustr \<Rightarrow> bool) \<Rightarrow> path list" where
  "rglob fs raw matches =
     (case lookup fs raw of
        Inl _ \<Rightarrow> []
      | Inr c \<Rightarrow> map (\<lambda>k. raw @ drop (length c) k)
                  (filter (\<lambda>k. below fs c k \<and> matches (last k)) (map fst fs)))"

definition md_pattern :: "ustr \<Rightarrow> bool" where
  "md_pattern name = suffix (u ''.md'') name"

definition any_pattern :: "ustr \<Rightarrow> bool" where
  "any_pattern name = True"

section \<open>pathlib operations on strings\<close>

text \<open>
  \<open>vault / path\<close>: the string is split at the separator, empty and \<open>.\<close> segments are
  dropped, and an absolute string replaces the left operand. (A string that starts with
  exactly two slashes has an implementation-defined root in POSIX, which pathlib keeps
  apart; it is read here as an ordinary absolute path.)
\<close>

fun split_on :: "nat \<Rightarrow> ustr \<Rightarrow> ustr list" where
  "split_on c [] = [[]]"
| "split_on c (x # xs) =
     (if x = c then [] # split_on c xs
      else (case split_on c xs of [] \<Rightarrow> [[x]] | w # ws \<Rightarrow> (x # w) # ws))"

definition segments :: "ustr \<Rightarrow> path" where
  "segments s = filter (\<lambda>w. w \<noteq> [] \<and> w \<noteq> u ''.'') (split_on slash s)"

definition is_absolute :: "ustr \<Rightarrow> bool" where
  "is_absolute s = prefix [slash] s"

definition joinpath :: "path \<Rightarrow> ustr \<Rightarrow> path" where
  "joinpath base s = (if is_absolute s then segments s else base @ segments s)"

text \<open>\<open>path.parent\<close>.\<close>

definition parent :: "path \<Rightarrow> path" where
  "parent p = butlast p"

text \<open>
  \<open>path.stem\<close>: the final segment without its last suffix; a leading or a trailing dot
  starts no suffix.
\<close>

primrec rfind :: "nat \<Rightarrow> ustr \<Rightarrow> nat option" where
  "rfind c [] = None"
| "rfind c (x # xs) =
     (case rfind c xs of Some i \<Rightarrow> Some (Suc i) | None \<Rightarrow> if x = c then Some 0 else None)"

definition stem :: "path \<Rightarrow> ustr" where
  "stem p =
     (if p = [] then []
      else let name = last p in
        case rfind 46 name of
          None \<Rightarrow> name
        | Some i \<Rightarrow> if 0 < i \<and> i < length name - 1 then take i name else name)"

text \<open>
  \<open>str(path.relative_to(other))\<close>: lexical; \<open>ValueError\<close> when \<open>other\<close> is not a prefix.
  The string of a relative path joins its segments; the empty one is \<open>.\<close>.
\<close>

fun join_rel :: "path \<Rightarrow> ustr" where
  "join_rel [] = []"
| "join_rel [s] = s"
| "join_rel (s # t # ts) = s @ slash # join_rel (t # ts)"

definition str_relative_to :: "path \<Rightarrow> path \<Rightarrow> exn + ustr" where
  "str_relative_to p other =
     (if prefix other p
      then Inr (let r = drop (length other) p in if r = [] then u ''.'' else join_rel r)
      else Inl ValueError)"

section \<open>Results\<close>

text \<open>
  The dictionaries the operations return, one constructor per shape. \<open>Error\<close> carries a
  message the source writes out; \<open>ErrorExc\<close> is \<open>{"error": str(e)}\<close> for a caught
  exception, whose text belongs to the runtime.
\<close>

datatype item = Item (item_name: ustr) (item_path: ustr) (item_modified: nat) (item_size: nat)

datatype title_hit = TitleHit (title_name: ustr) (title_path: ustr) (title_modified: nat)

datatype text_hit =
  TextHit (text_name: ustr) (text_path: ustr) (text_snippet: ustr) (text_modified: nat)

datatype result =
    Error ustr
  | ErrorExc exn
  | NoteRead ustr ustr ustr nat nat
  | Saved ustr ustr
  | Trashed ustr
  | Listing "item list"
  | TitleHits "title_hit list"
  | TextHits "text_hit list"
  | Folders "ustr list"
  | Tags "(ustr \<times> ustr list) list"
  | VaultInfo ustr nat nat

definition access_denied :: ustr where
  "access_denied = u ''Access denied: path outside vault''"

definition not_found :: "ustr \<Rightarrow> ustr" where
  "not_found path = u ''File not found: '' @ path"

text \<open>
  The containment test of the three note operations:
  \<open>str(file_path.resolve()).startswith(str(vault.resolve()))\<close>.
\<close>

definition inside_vault :: "path \<Rightarrow> path \<Rightarrow> bool" where
  "inside_vault vault file_path = prefix (str_path (resolve vault)) (str_path (resolve file_path))"

section \<open>NoteStore\<close>

text \<open>
  Every operation takes the vault root (\<open>get_vault_path()\<close>) and the filesystem; the ones
  that write also take the clock reading and return the filesystem they leave.
  \<^verbatim>\<open>
  def read_note(path: str) -> dict:
      vault = get_vault_path()
      file_path = vault / path
      if not file_path.exists():
          return {"error": f"File not found: {path}"}
      if not str(file_path.resolve()).startswith(str(vault.resolve())):
          return {"error": "Access denied: path outside vault"}
      try:
          content = file_path.read_text(encoding="utf-8")
          stat = file_path.stat()
          return {"name": file_path.stem, "path": path, "content": content,
                  "modified": ..., "size": stat.st_size}
      except Exception as e:
          return {"error": str(e)}
  \<close>
\<close>

definition read_note :: "path \<Rightarrow> fs \<Rightarrow> ustr \<Rightarrow> result" where
  "read_note vault fs path =
     (let file_path = joinpath vault path in
      if \<not> exists fs file_path then Error (not_found path)
      else if \<not> inside_vault vault file_path then Error access_denied
      else case read_text fs file_path of
        Inl e \<Rightarrow> ErrorExc e
      | Inr content \<Rightarrow>
          (case stat fs file_path of
             Inl e \<Rightarrow> ErrorExc e
           | Inr (m, sz) \<Rightarrow> NoteRead (stem file_path) path content m sz))"

text \<open>
  \<^verbatim>\<open>
  def write_note(path: str, content: str) -> dict:
      vault = get_vault_path()
      if not path.endswith(".md"):
          path = path + ".md"
      file_path = vault / path
      if not str(file_path.resolve()).startswith(str(vault.resolve())):
          return {"error": "Access denied: path outside vault"}
      try:
          file_path.parent.mkdir(parents=True, exist_ok=True)
          file_path.write_text(content, encoding="utf-8")
          return {"success": True, "path": path, "message": f"Note saved: {path}"}
      except Exception as e:
          return {"error": str(e)}
  \<close>
  \<open>with_md\<close> is the first statement: the extension is appended before anything else.
\<close>

definition with_md :: "ustr \<Rightarrow> ustr" where
  "with_md path = (if \<not> suffix (u ''.md'') path then path @ u ''.md'' else path)"

definition write_note :: "path \<Rightarrow> nat \<Rightarrow> fs \<Rightarrow> ustr \<Rightarrow> ustr \<Rightarrow> result \<times> fs" where
  "write_note vault now fs path0 content =
     (let path = with_md path0;
          file_path = joinpath vault path in
      if \<not> inside_vault vault file_path then (Error access_denied, fs)
      else case mkdir_parents now fs (parent file_path) of
        (Some e, fs1) \<Rightarrow> (ErrorExc e, fs1)
      | (None, fs1) \<Rightarrow>
          (case write_text now fs1 file_path content of
             (Some e, fs2) \<Rightarrow> (ErrorExc e, fs2)
           | (None, fs2) \<Rightarrow> (Saved path (u ''Note saved: '' @ path), fs2)))"

text \<open>
  \<^verbatim>\<open>
  def delete_note(path: str) -> dict:
      vault = get_vault_path()
      file_path = vault / path
      if not file_path.exists():
          return {"error": f"File not found: {path}"}
      if not str(file_path.resolve()).startswith(str(vault.resolve())):
          return {"error": "Access denied: path outside vault"}
      try:
          trash_path = vault / ".trash" / path
          trash_path.parent.mkdir(parents=True, exist_ok=True)
          file_path.rename(trash_path)
          return {"success": True, "message": f"Moved to trash: {path}"}
      except Exception as e:
          return {"error": str(e)}
  \<close>
\<close>

definition delete_note :: "path \<Rightarrow> nat \<Rightarrow> fs \<Rightarrow> ustr \<Rightarrow> result \<times> fs" where
  "delete_note vault now fs path =
     (let file_path = joinpath vault path in
      if \<not> exists fs file_path then (Error (not_found path), fs)
      else if \<not> inside_vault vault file_path then (Error access_denied, fs)
      else let trash_path = joinpath (joinpath vault (u ''.trash'')) path in
        case mkdir_parents now fs (parent trash_path) of
          (Some e, fs1) \<Rightarrow> (ErrorExc e, fs1)
        | (None, fs1) \<Rightarrow>
            (case os_rename fs1 file_path trash_path of
               Inl e \<Rightarrow> (ErrorExc (OSError e), fs1)
             | Inr fs2 \<Rightarrow> (Trashed (u ''Moved to trash: '' @ path), fs2)))"

section \<open>QueryEngine\<close>

text \<open>
  \<^verbatim>\<open>
  def list_markdown_files(folder: Optional[str] = None, limit: int = 50) -> list[dict]:
      vault = get_vault_path()
      search_path = vault / folder if folder else vault
      if not search_path.exists():
          return []
      files = []
      for md_file in search_path.rglob("*.md"):
          if is_hidden_or_system(md_file):
              continue
          try:
              stat = md_file.stat()
              files.append({"name": md_file.stem,
                            "path": str(md_file.relative_to(vault)),
                            "modified": ..., "size": stat.st_size})
          except (OSError, ValueError):
              continue
          if len(files) >= limit:
              break
      return sorted(files, key=lambda x: x["modified"], reverse=True)
  \<close>
  The body of the \<open>try\<close> is \<open>list_item\<close>; the loop runs over the entries \<open>rglob\<close> yields;
  \<open>search_path\<close> is the second line.
  \<open>sorted(..., reverse=True)\<close> is stable: it reverses, sorts ascending and reverses.
\<close>

definition list_item :: "path \<Rightarrow> fs \<Rightarrow> path \<Rightarrow> exn + item" where
  "list_item vault fs md_file =
     (case stat fs md_file of
        Inl e \<Rightarrow> Inl e
      | Inr (m, sz) \<Rightarrow>
          (case str_relative_to md_file vault of
             Inl e \<Rightarrow> Inl e
           | Inr p \<Rightarrow> Inr (Item (stem md_file) p m sz)))"

fun list_loop :: "path \<Rightarrow> fs \<Rightarrow> int \<Rightarrow> path list \<Rightarrow> item list \<Rightarrow> item list" where
  "list_loop vault fs limit [] files = files"
| "list_loop vault fs limit (md_file # rest) files =
     (if is_hidden_or_system md_file then list_loop vault fs limit rest files
      else case list_item vault fs md_file of
        Inl _ \<Rightarrow> list_loop vault fs limit rest files
      | Inr d \<Rightarrow>
          if limit \<le> int (length (files @ [d])) then files @ [d]
          else list_loop vault fs limit rest (files @ [d]))"

definition sorted_desc :: "('a \<Rightarrow> nat) \<Rightarrow> 'a list \<Rightarrow> 'a list" where
  "sorted_desc key xs = rev (sort_key key (rev xs))"

definition search_path :: "path \<Rightarrow> ustr option \<Rightarrow> path" where
  "search_path vault folder =
     (case folder of
        None \<Rightarrow> vault
      | Some f \<Rightarrow> if f \<noteq> [] then joinpath vault f else vault)"

definition list_markdown_files :: "path \<Rightarrow> fs \<Rightarrow> ustr option \<Rightarrow> int \<Rightarrow> item list" where
  "list_markdown_files vault fs folder limit =
     (if \<not> exists fs (search_path vault folder) then []
      else sorted_desc item_modified
             (list_loop vault fs limit (rglob fs (search_path vault folder) md_pattern) []))"

text \<open>
  \<open>str.lower()\<close> follows the Unicode database of the Python runtime, so the operations
  that fold case take it as the parameter \<open>lw\<close>. \<open>ascii_lower\<close>, which folds the letters
  A to Z only, agrees with it on texts whose other characters are caseless.
\<close>

definition ascii_lower :: "ustr \<Rightarrow> ustr" where
  "ascii_lower s = map (\<lambda>c. if 65 \<le> c \<and> c \<le> 90 then c + 32 else c) s"

text \<open>
  \<open>str.lower()\<close> does not always keep the length of a text: the lower case of U+0130 (capital
  I with a dot above, code point 304) is the two code points U+0069 U+0307 (105 and 775).
  \<open>lower_dotted\<close> is \<open>str.lower()\<close> on texts made of ASCII characters and U+0130.
\<close>

definition lower_dotted :: "ustr \<Rightarrow> ustr" where
  "lower_dotted s =
     concat (map (\<lambda>c. if 65 \<le> c \<and> c \<le> 90 then [c + 32]
                       else if c = 304 then [105, 775] else [c]) s)"

text \<open>
  \<^verbatim>\<open>
  def search_by_title(query: str, limit: int = 20) -> list[dict]:
      vault = get_vault_path()
      results = []
      query_lower = query.lower()
      for md_file in vault.rglob("*.md"):
          if is_hidden_or_system(md_file):
              continue
          if query_lower in md_file.stem.lower():
              try:
                  stat = md_file.stat()
                  results.append({"name": md_file.stem,
                                  "path": str(md_file.relative_to(vault)),
                                  "modified": ...})
              except (OSError, ValueError):
                  continue
              if len(results) >= limit:
                  break
      return results
  \<close>
\<close>

definition title_item :: "path \<Rightarrow> fs \<Rightarrow> path \<Rightarrow> exn + title_hit" where
  "title_item vault fs md_file =
     (case stat fs md_file of
        Inl e \<Rightarrow> Inl e
      | Inr (m, sz) \<Rightarrow>
          (case str_relative_to md_file vault of
             Inl e \<Rightarrow> Inl e
           | Inr p \<Rightarrow> Inr (TitleHit (stem md_file) p m)))"

fun title_loop ::
  "(ustr \<Rightarrow> ustr) \<Rightarrow> path \<Rightarrow> fs \<Rightarrow> ustr \<Rightarrow> int \<Rightarrow> path list \<Rightarrow> title_hit list \<Rightarrow> title_hit list"
where
  "title_loop lw vault fs query_lower limit [] results = results"
| "title_loop lw vault fs query_lower limit (md_file # rest) results =
     (if is_hidden_or_system md_file then title_loop lw vault fs query_lower limit rest results
      else if sublist query_lower (lw (stem md_file)) then
        (case title_item vault fs md_file of
           Inl _ \<Rightarrow> title_loop lw vault fs query_lower limit rest results
         | Inr r \<Rightarrow>
             if limit \<le> int (length (results @ [r])) then results @ [r]
             else title_loop lw vault fs query_lower limit rest (results @ [r]))
      else title_loop lw vault fs query_lower limit rest results)"

definition search_by_title ::
  "(ustr \<Rightarrow> ustr) \<Rightarrow> path \<Rightarrow> fs \<Rightarrow> ustr \<Rightarrow> int \<Rightarrow> title_hit list" where
  "search_by_title lw vault fs query limit =
     title_loop lw vault fs (lw query) limit (rglob fs vault md_pattern) []"

text \<open>
  \<open>s.find(sub)\<close>: the lowest index at which \<open>sub\<close> starts, or -1. \<open>s[start:end]\<close> with the
  bounds Python clamps. \<open>s.replace("\n", " ")\<close>.
\<close>

fun find :: "ustr \<Rightarrow> ustr \<Rightarrow> int" where
  "find [] sub = (if sub = [] then 0 else - 1)"
| "find (c # cs) sub =
     (if prefix sub (c # cs) then 0
      else let i = find cs sub in if i < 0 then - 1 else i + 1)"

definition clamp_index :: "int \<Rightarrow> int \<Rightarrow> int" where
  "clamp_index n i = (if i < 0 then max 0 (i + n) else min i n)"

definition slice :: "ustr \<Rightarrow> int \<Rightarrow> int \<Rightarrow> ustr" where
  "slice s start end =
     (let n = int (length s); a = clamp_index n start; b = clamp_index n end
      in take (nat (b - a)) (drop (nat a) s))"

definition replace_newlines :: "ustr \<Rightarrow> ustr" where
  "replace_newlines s = map (\<lambda>c. if c = 10 then 32 else c) s"

text \<open>
  \<^verbatim>\<open>
  def full_text_search(query: str, limit: int = 20) -> list[dict]:
      vault = get_vault_path()
      results = []
      query_lower = query.lower()
      for md_file in vault.rglob("*.md"):
          if is_hidden_or_system(md_file):
              continue
          try:
              content = md_file.read_text(encoding="utf-8")
              if query_lower in content.lower():
                  idx = content.lower().find(query_lower)
                  start = max(0, idx - 50)
                  end = min(len(content), idx + len(query) + 50)
                  snippet = content[start:end].replace("\n", " ")
                  stat = md_file.stat()
                  results.append({"name": md_file.stem,
                                  "path": str(md_file.relative_to(vault)),
                                  "snippet": f"...{snippet}...",
                                  "modified": ...})
                  if len(results) >= limit:
                      break
          except Exception:
              continue
      return results
  \<close>
  \<open>make_snippet\<close> is the four lines from \<open>idx\<close> to \<open>snippet\<close> with the ellipsis markers of
  the result; \<open>text_item\<close> is the body of the \<open>try\<close> up to the appended dictionary
  (\<open>Inr None\<close> when the content does not contain the query).
\<close>

definition make_snippet :: "(ustr \<Rightarrow> ustr) \<Rightarrow> ustr \<Rightarrow> ustr \<Rightarrow> ustr" where
  "make_snippet lw query content =
     (let idx = find (lw content) (lw query);
          start = max 0 (idx - 50);
          end = min (int (length content)) (idx + int (length query) + 50);
          snippet = replace_newlines (slice content start end)
      in u ''...'' @ snippet @ u ''...'')"

definition text_item ::
  "(ustr \<Rightarrow> ustr) \<Rightarrow> path \<Rightarrow> fs \<Rightarrow> ustr \<Rightarrow> path \<Rightarrow> exn + text_hit option" where
  "text_item lw vault fs query md_file =
     (case read_text fs md_file of
        Inl e \<Rightarrow> Inl e
      | Inr content \<Rightarrow>
          if sublist (lw query) (lw content) then
            (case stat fs md_file of
               Inl e \<Rightarrow> Inl e
             | Inr (m, sz) \<Rightarrow>
                 (case str_relative_to md_file vault of
                    Inl e \<Rightarrow> Inl e
                  | Inr p \<Rightarrow>
                      Inr (Some (TextHit (stem md_file) p (make_snippet lw query content) m))))
          else Inr None)"

fun text_loop ::
  "(ustr \<Rightarrow> ustr) \<Rightarrow> path \<Rightarrow> fs \<Rightarrow> ustr \<Rightarrow> int \<Rightarrow> path list \<Rightarrow> text_hit list \<Rightarrow> text_hit list"
where
  "text_loop lw vault fs query limit [] results = results"
| "text_loop lw vault fs query limit (md_file # rest) results =
     (if is_hidden_or_system md_file then text_loop lw vault fs query limit rest results
      else case text_item lw vault fs query md_file of
        Inl _ \<Rightarrow> text_loop lw vault fs query limit rest results
      | Inr None \<Rightarrow> text_loop lw vault fs query limit rest results
      | Inr (Some r) \<Rightarrow>
          if limit \<le> int (length (results @ [r])) then results @ [r]
          else text_loop lw vault fs query limit rest (results @ [r]))"

definition full_text_search ::
  "(ustr \<Rightarrow> ustr) \<Rightarrow> path \<Rightarrow> fs \<Rightarrow> ustr \<Rightarrow> int \<Rightarrow> text_hit list" where
  "full_text_search lw vault fs query limit =
     text_loop lw vault fs query limit (rglob fs vault md_pattern) []"

text \<open>
  \<^verbatim>\<open>
  def list_folders() -> list[str]:
      vault = get_vault_path()
      folders = []
      for item in vault.rglob("*"):
          if item.is_dir() and not is_hidden_or_system(item):
              folders.append(str(item.relative_to(vault)))
      return sorted(folders)
  \<close>
  No handler here: an exception leaves the function.
\<close>

fun folders_loop :: "path \<Rightarrow> fs \<Rightarrow> path list \<Rightarrow> ustr list \<Rightarrow> exn + ustr list" where
  "folders_loop vault fs [] folders = Inr folders"
| "folders_loop vault fs (item # rest) folders =
     (if is_dir fs item \<and> \<not> is_hidden_or_system item then
        (case str_relative_to item vault of
           Inl e \<Rightarrow> Inl e
         | Inr s \<Rightarrow> folders_loop vault fs rest (folders @ [s]))
      else folders_loop vault fs rest folders)"

definition list_folders :: "path \<Rightarrow> fs \<Rightarrow> exn + ustr list" where
  "list_folders vault fs =
     (case folders_loop vault fs (rglob fs vault any_pattern) [] of
        Inl e \<Rightarrow> Inl e
      | Inr folders \<Rightarrow> Inr (sort folders))"

text \<open>
  \<^verbatim>\<open>
  def get_tags() -> dict:
      vault = get_vault_path()
      tags = {}
      for md_file in vault.rglob("*.md"):
          if is_hidden_or_system(md_file):
              continue
          try:
              content = md_file.read_text(encoding="utf-8")
              found_tags = re.findall(r"#([\w\u0080-\uffff]+)", content)
              for tag in found_tags:
                  if tag not in tags:
                      tags[tag] = []
                  tags[tag].append(md_file.stem)
          except Exception:
              continue
      return tags
  \<close>
  The character class: \<open>\w\<close> on a \<open>str\<close> pattern is the underscore and what
  \<open>str.isalnum\<close> accepts, which beyond ASCII is a table of the runtime, the parameter
  \<open>alnum\<close>; the class adds every code point from U+0080 to U+FFFF. \<open>re.findall\<close> scans from
  the left, takes the longest run after a marker, and goes on after the match. The
  dictionary keeps its keys in the order of their first insertion.
\<close>

definition hash :: nat where
  "hash = 35"

definition word_char :: "(nat \<Rightarrow> bool) \<Rightarrow> nat \<Rightarrow> bool" where
  "word_char alnum c =
     (if c < 128
      then (48 \<le> c \<and> c \<le> 57) \<or> (65 \<le> c \<and> c \<le> 90) \<or> (97 \<le> c \<and> c \<le> 122) \<or> c = 95
      else alnum c)"

definition tag_char :: "(nat \<Rightarrow> bool) \<Rightarrow> nat \<Rightarrow> bool" where
  "tag_char alnum c = (word_char alnum c \<or> (128 \<le> c \<and> c \<le> 65535))"

function findall_tags :: "(nat \<Rightarrow> bool) \<Rightarrow> ustr \<Rightarrow> ustr list" where
  "findall_tags alnum [] = []"
| "findall_tags alnum (c # cs) =
     (if c = hash \<and> takeWhile (tag_char alnum) cs \<noteq> []
      then takeWhile (tag_char alnum) cs # findall_tags alnum (dropWhile (tag_char alnum) cs)
      else findall_tags alnum cs)"
  by pat_completeness auto
termination
  by (relation "measure (\<lambda>(alnum, s). length s)")
    (auto simp: length_dropWhile_le less_Suc_eq_le)

definition add_tag :: "ustr \<Rightarrow> ustr \<Rightarrow> (ustr \<times> ustr list) list \<Rightarrow> (ustr \<times> ustr list) list" where
  "add_tag name tag tags =
     (let tags1 = (if map_of tags tag = None then AList.update tag [] tags else tags)
      in case map_of tags1 tag of
           None \<Rightarrow> tags1
         | Some names \<Rightarrow> AList.update tag (names @ [name]) tags1)"

fun tags_loop ::
  "(nat \<Rightarrow> bool) \<Rightarrow> fs \<Rightarrow> path list \<Rightarrow> (ustr \<times> ustr list) list \<Rightarrow> (ustr \<times> ustr list) list"
where
  "tags_loop alnum fs [] tags = tags"
| "tags_loop alnum fs (md_file # rest) tags =
     (if is_hidden_or_system md_file then tags_loop alnum fs rest tags
      else case read_text fs md_file of
        Inl _ \<Rightarrow> tags_loop alnum fs rest tags
      | Inr content \<Rightarrow>
          tags_loop alnum fs rest
            (fold (add_tag (stem md_file)) (findall_tags alnum content) tags))"

definition get_tags :: "(nat \<Rightarrow> bool) \<Rightarrow> path \<Rightarrow> fs \<Rightarrow> (ustr \<times> ustr list) list" where
  "get_tags alnum vault fs = tags_loop alnum fs (rglob fs vault md_pattern) []"

text \<open>
  \<^verbatim>\<open>
  def get_vault_info() -> dict:
      vault = get_vault_path()
      if not vault.exists():
          return {"error": f"Vault not found: {vault}"}
      notes = [f for f in vault.rglob("*.md") if not is_hidden_or_system(f)]
      folders = [d for d in vault.rglob("*") if d.is_dir() and not is_hidden_or_system(d)]
      return {"vault_path": str(vault), "note_count": len(notes),
              "folder_count": len(folders)}
  \<close>
\<close>

definition get_vault_info :: "path \<Rightarrow> fs \<Rightarrow> result" where
  "get_vault_info vault fs =
     (if \<not> exists fs vault then Error (u ''Vault not found: '' @ str_path vault)
      else let notes = filter (\<lambda>f. \<not> is_hidden_or_system f) (rglob fs vault md_pattern);
               folders = filter (\<lambda>d. is_dir fs d \<and> \<not> is_hidden_or_system d)
                           (rglob fs vault any_pattern)
           in VaultInfo (str_path vault) (length notes) (length folders))"

section \<open>The dispatcher\<close>

text \<open>
  The argument object: the values under the five keys the dispatcher reads, each absent
  or of the type the tool's input schema declares. \<open>arguments["k"]\<close> on an absent key
  raises \<open>KeyError\<close>; \<open>arguments.get("k", d)\<close> gives \<open>d\<close>. The dispatcher returns the
  serialised result, or, from its handler, the serialised \<open>{"error": str(e)}\<close>; the
  serialisation itself is not modelled.
  \<^verbatim>\<open>
  async def call_tool(name: str, arguments: dict) -> list[TextContent]:
      try:
          if name == "list_notes":
              result = list_markdown_files(folder=arguments.get("folder"),
                                           limit=arguments.get("limit", 50))
          elif name == "get_note":
              result = read_note(arguments["path"])
          elif name == "create_note":
              result = write_note(arguments["path"], arguments["content"])
          elif name == "update_note":
              result = write_note(arguments["path"], arguments["content"])
          elif name == "search_notes":
              result = search_by_title(arguments["query"], limit=arguments.get("limit", 20))
          elif name == "full_text_search":
              result = full_text_search(arguments["query"], limit=arguments.get("limit", 20))
          elif name == "list_folders":
              result = list_folders()
          elif name == "get_tags":
              result = get_tags()
          elif name == "delete_note":
              result = delete_note(arguments["path"])
          elif name == "get_vault_info":
              result = get_vault_info()
          else:
              result = {"error": f"Unknown tool: {name}"}
          return [TextContent(type="text", text=json.dumps(result, ...))]
      except Exception as e:
          return [TextContent(type="text", text=json.dumps({"error": str(e)}))]
  \<close>
\<close>

record arguments =
  arg_folder :: "ustr option"
  arg_limit :: "int option"
  arg_path :: "ustr option"
  arg_content :: "ustr option"
  arg_query :: "ustr option"

datatype reply = Reply result | Caught exn

definition get_or :: "'a option \<Rightarrow> 'a \<Rightarrow> 'a" where
  "get_or v d = (case v of None \<Rightarrow> d | Some x \<Rightarrow> x)"

definition tool_names :: "ustr list" where
  "tool_names =
     [u ''list_notes'', u ''get_note'', u ''create_note'', u ''update_note'',
      u ''search_notes'', u ''full_text_search'', u ''list_folders'', u ''get_tags'',
      u ''delete_note'', u ''get_vault_info'']"

definition call_write ::
  "path \<Rightarrow> nat \<Rightarrow> fs \<Rightarrow> arguments \<Rightarrow> reply \<times> fs" where
  "call_write vault now fs arguments =
     (case arg_path arguments of
        None \<Rightarrow> (Caught (KeyError (u ''path'')), fs)
      | Some p \<Rightarrow>
          (case arg_content arguments of
             None \<Rightarrow> (Caught (KeyError (u ''content'')), fs)
           | Some c \<Rightarrow> (case write_note vault now fs p c of (r, fs') \<Rightarrow> (Reply r, fs'))))"

definition call_tool ::
  "(ustr \<Rightarrow> ustr) \<Rightarrow> (nat \<Rightarrow> bool) \<Rightarrow> path \<Rightarrow> nat \<Rightarrow> fs \<Rightarrow> ustr \<Rightarrow> arguments \<Rightarrow> reply \<times> fs"
where
  "call_tool lw alnum vault now fs name arguments =
     (if name = u ''list_notes'' then
        (Reply (Listing (list_markdown_files vault fs (arg_folder arguments)
                           (get_or (arg_limit arguments) 50))), fs)
      else if name = u ''get_note'' then
        (case arg_path arguments of
           None \<Rightarrow> (Caught (KeyError (u ''path'')), fs)
         | Some p \<Rightarrow> (Reply (read_note vault fs p), fs))
      else if name = u ''create_note'' then call_write vault now fs arguments
      else if name = u ''update_note'' then call_write vault now fs arguments
      else if name = u ''search_notes'' then
        (case arg_query arguments of
           None \<Rightarrow> (Caught (KeyError (u ''query'')), fs)
         | Some q \<Rightarrow>
             (Reply (TitleHits (search_by_title lw vault fs q (get_or (arg_limit arguments) 20))),
              fs))
      else if name = u ''full_text_search'' then
        (case arg_query arguments of
           None \<Rightarrow> (Caught (KeyError (u ''query'')), fs)
         | Some q \<Rightarrow>
             (Reply (TextHits (full_text_search lw vault fs q (get_or (arg_limit arguments) 20))),
              fs))
      else if name = u ''list_folders'' then
        (case list_folders vault fs of
           Inl e \<Rightarrow> (Caught e, fs)
         | Inr folders \<Rightarrow> (Reply (Folders folders), fs))
      else if name = u ''get_tags'' then (Reply (Tags (get_tags alnum vault fs)), fs)
      else if name = u ''delete_note'' then
        (case arg_path arguments of
           None \<Rightarrow> (Caught (KeyError (u ''path'')), fs)
         | Some p \<Rightarrow> (case delete_note vault now fs p of (r, fs') \<Rightarrow> (Reply r, fs')))
      else if name = u ''get_vault_info'' then (Reply (get_vault_info vault fs), fs)
      else (Reply (Error (u ''Unknown tool: '' @ name)), fs))"

section \<open>Specification functions\<close>

text \<open>
  What a scan keeps when nothing cuts it short: the entries that pass the hidden filter
  and whose \<open>try\<close> body completes, in scan order.
\<close>

definition list_candidates :: "path \<Rightarrow> fs \<Rightarrow> path list \<Rightarrow> item list" where
  "list_candidates vault fs entries =
     List.map_filter
       (\<lambda>e. if is_hidden_or_system e then None
            else case list_item vault fs e of Inl _ \<Rightarrow> None | Inr d \<Rightarrow> Some d)
       entries"

definition title_candidates ::
  "(ustr \<Rightarrow> ustr) \<Rightarrow> path \<Rightarrow> fs \<Rightarrow> ustr \<Rightarrow> path list \<Rightarrow> title_hit list" where
  "title_candidates lw vault fs query_lower entries =
     List.map_filter
       (\<lambda>e. if is_hidden_or_system e \<or> \<not> sublist query_lower (lw (stem e)) then None
            else case title_item vault fs e of Inl _ \<Rightarrow> None | Inr r \<Rightarrow> Some r)
       entries"

definition text_candidates ::
  "(ustr \<Rightarrow> ustr) \<Rightarrow> path \<Rightarrow> fs \<Rightarrow> ustr \<Rightarrow> path list \<Rightarrow> text_hit list" where
  "text_candidates lw vault fs query entries =
     List.map_filter
       (\<lambda>e. if is_hidden_or_system e then None
            else case text_item lw vault fs query e of Inl _ \<Rightarrow> None | Inr r \<Rightarrow> r)
       entries"

text \<open>
  \<open>listNotes\<close> as the specification words it: collect every match, sort the full set by
  modified time descending, then truncate to the limit.
\<close>

definition list_notes_collect_sort_truncate ::
  "path \<Rightarrow> fs \<Rightarrow> ustr option \<Rightarrow> int \<Rightarrow> item list" where
  "list_notes_collect_sort_truncate vault fs folder limit =
     take (nat limit)
       (sorted_desc item_modified
          (list_candidates vault fs (rglob fs (search_path vault folder) md_pattern)))"

text \<open>
  The shape the three scanning loops share: append what the body yields and stop as soon
  as the list is at least \<open>limit\<close> long, a test made only after an append.
\<close>

fun bounded_collect :: "('e \<Rightarrow> 'r option) \<Rightarrow> int \<Rightarrow> 'e list \<Rightarrow> 'r list \<Rightarrow> 'r list" where
  "bounded_collect body limit [] acc = acc"
| "bounded_collect body limit (e # es) acc =
     (case body e of
        None \<Rightarrow> bounded_collect body limit es acc
      | Some r \<Rightarrow>
          if limit \<le> int (length (acc @ [r])) then acc @ [r]
          else bounded_collect body limit es (acc @ [r]))"

text \<open>
  The condition of C10 on the vault root itself: a segment of its path starts with a dot,
  or its path string contains the metadata or the trash folder name.
\<close>

definition hidden_root :: "path \<Rightarrow> bool" where
  "hidden_root vault =
     (list_ex (\<lambda>s. prefix (u ''.'') s) vault \<or> sublist (u ''.obsidian'') (str_path vault) \<or>
      sublist (u ''.trash'') (str_path vault))"

text \<open>
  The snippet for a match at offset \<open>i\<close>: the 50 characters before it, the matched
  stretch (as long as the query) and the 50 characters after, as far as the content
  goes, newlines replaced, between the ellipsis markers.
\<close>

definition window :: "ustr \<Rightarrow> ustr \<Rightarrow> nat \<Rightarrow> ustr" where
  "window query content i =
     u ''...'' @ replace_newlines
       (take (min (length content) (i + length query + 50) - (i - 50)) (drop (i - 50) content))
     @ u ''...''"

text \<open>
  A case-insensitive match at offset \<open>i\<close> of the note itself: the stretch of the note that
  starts at offset \<open>i\<close> and is as long as the query is the query when both are lower-cased.
  \<open>first_match\<close> is the least such offset, if there is one.
\<close>

definition matches_at :: "(ustr \<Rightarrow> ustr) \<Rightarrow> ustr \<Rightarrow> ustr \<Rightarrow> nat \<Rightarrow> bool" where
  "matches_at lw query content i =
     (i + length query \<le> length content \<and>
      lw (take (length query) (drop i content)) = lw query)"

definition first_match :: "(ustr \<Rightarrow> ustr) \<Rightarrow> ustr \<Rightarrow> ustr \<Rightarrow> nat option" where
  "first_match lw query content =
     List.find (matches_at lw query content) [0 ..< Suc (length content)]"

text \<open>
  What the two searches find for the empty query when nothing cuts the scan short: every
  non-hidden entry whose \<open>stat\<close> succeeds, and for the full-text search whose content
  also reads, with the snippet taken from offset 0.
\<close>

definition every_title :: "path \<Rightarrow> fs \<Rightarrow> title_hit list" where
  "every_title vault fs =
     List.map_filter
       (\<lambda>e. if is_hidden_or_system e then None
            else case title_item vault fs e of Inl _ \<Rightarrow> None | Inr r \<Rightarrow> Some r)
       (rglob fs vault md_pattern)"

definition every_text :: "path \<Rightarrow> fs \<Rightarrow> text_hit list" where
  "every_text vault fs =
     List.map_filter
       (\<lambda>e. if is_hidden_or_system e then None
            else case read_text fs e of
              Inl _ \<Rightarrow> None
            | Inr content \<Rightarrow>
                (case title_item vault fs e of
                   Inl _ \<Rightarrow> None
                 | Inr r \<Rightarrow>
                     Some (TextHit (title_name r) (title_path r)
                             (u ''...'' @ replace_newlines (take 50 content) @ u ''...'')
                             (title_modified r))))
       (rglob fs vault md_pattern)"

text \<open>
  The names a tag dictionary lists under a tag (none when the key is absent), and the
  names one scanned entry contributes under a tag: the display name once per
  occurrence of the tag in the content, nothing for a hidden or unreadable entry.
\<close>

definition names_of :: "(ustr \<times> ustr list) list \<Rightarrow> ustr \<Rightarrow> ustr list" where
  "names_of tags t = (case map_of tags t of None \<Rightarrow> [] | Some l \<Rightarrow> l)"

definition tag_occurrences :: "(nat \<Rightarrow> bool) \<Rightarrow> fs \<Rightarrow> ustr \<Rightarrow> path \<Rightarrow> ustr list" where
  "tag_occurrences alnum fs t e =
     (if is_hidden_or_system e then []
      else case read_text fs e of
        Inl _ \<Rightarrow> []
      | Inr content \<Rightarrow> replicate (count_list (findall_tags alnum content) t) (stem e))"

text \<open>
  Where a resolved path \<open>T\<close> lies with respect to the resolved vault root \<open>V\<close>: at or
  below it (\<^const>\<open>prefix\<close> on segments), or at or below a sibling of the root whose name
  properly extends the root's own last segment (\<open>/home/u/vault2\<close> for \<open>/home/u/vault\<close>).
  \<open>escapes\<close> is neither of the two.
\<close>

definition sibling_extends :: "path \<Rightarrow> path \<Rightarrow> bool" where
  "sibling_extends V T =
     (V \<noteq> [] \<and> length V \<le> length T \<and> take (length V - 1) T = butlast V \<and>
      strict_prefix (last V) (T ! (length V - 1)))"

definition escapes :: "path \<Rightarrow> ustr \<Rightarrow> bool" where
  "escapes vault p =
     (\<not> prefix (resolve vault) (resolve (joinpath vault p)) \<and>
      \<not> sibling_extends (resolve vault) (resolve (joinpath vault p)))"

text \<open>The rendering of a non-root path, without the special case of the root.\<close>

definition join :: "path \<Rightarrow> ustr" where
  "join p = concat (map (\<lambda>s. slash # s) p)"

text \<open>
  How \<open>mkdir\<close> may change a filesystem at time \<open>now\<close>: what exists stays as it is, and
  what is new is a directory made at \<open>now\<close>.
\<close>

definition grown :: "nat \<Rightarrow> fs \<Rightarrow> fs \<Rightarrow> bool" where
  "grown now fs fs1 =
     (\<forall>q. (node_at fs q \<noteq> None \<longrightarrow> node_at fs1 q = node_at fs q) \<and>
          (node_at fs q = None \<longrightarrow> node_at fs1 q = None \<or> node_at fs1 q = Some (Dir now)))"

section \<open>Example vaults\<close>

definition vault_v :: path where
  "vault_v = [u ''v'']"

text \<open>A vault \<open>/v\<close> with two notes; the scan meets the older one first.\<close>

definition two_notes :: fs where
  "two_notes =
     [([u ''v''], Dir 1),
      ([u ''v'', u ''old.md''], File 1 (Text (u ''old''))),
      ([u ''v'', u ''new.md''], File 2 (Text (u ''new'')))]"

definition no_arguments :: arguments where
  "no_arguments =
     \<lparr>arg_folder = None, arg_limit = None, arg_path = None, arg_content = None,
      arg_query = None\<rparr>"

text \<open>A vault kept under a dot directory, \<open>/.notes/vault\<close>, with one note and one folder.\<close>

definition dotted_vault :: path where
  "dotted_vault = [u ''.notes'', u ''vault'']"

definition dotted_fs :: fs where
  "dotted_fs =
     [([u ''.notes''], Dir 1),
      ([u ''.notes'', u ''vault''], Dir 1),
      ([u ''.notes'', u ''vault'', u ''sub''], Dir 1),
      ([u ''.notes'', u ''vault'', u ''n.md''], File 2 (Text (u ''#tag text'')))]"

text \<open>
  A note of 200 characters with \<open>Apple\<close> at offset 100 and a newline at offset 60.
\<close>

definition apple_text :: ustr where
  "apple_text = replicate 60 120 @ [10] @ replicate 39 120 @ u ''Apple'' @ replicate 95 121"

definition apple_fs :: fs where
  "apple_fs = [([u ''v''], Dir 1), ([u ''v'', u ''fruit.md''], File 3 (Text apple_text))]"

text \<open>
  Two notes that start with capital dotted I's (U+0130): 60 of them, \<open>apple\<close> at offset 60
  and 100 x's; and a note of 200 characters with 100 of them, \<open>apple\<close> at offset 100 and
  95 x's. \<open>one_note\<close> is the vault \<open>/v\<close> holding one note \<open>fruit.md\<close> with the given content.
\<close>

definition dotted_text :: ustr where
  "dotted_text = replicate 60 304 @ u ''apple'' @ replicate 100 120"

definition dotted_200 :: ustr where
  "dotted_200 = replicate 100 304 @ u ''apple'' @ replicate 95 120"

definition one_note :: "ustr \<Rightarrow> fs" where
  "one_note content = [([u ''v''], Dir 1), ([u ''v'', u ''fruit.md''], File 3 (Text content))]"

text \<open>
  A vault with the note of the tag example and a note that repeats a tag.
\<close>

definition review_text :: ustr where
  "review_text = u ''Review #project and #'' @ [54532, 47196, 51229, 53944] @ u '' today''"

definition twice_text :: ustr where
  "twice_text = u ''#project, again #project''"

definition two_texts :: "ustr \<Rightarrow> ustr \<Rightarrow> fs" where
  "two_texts a b =
     [([u ''v''], Dir 1),
      ([u ''v'', u ''review.md''], File 2 (Text a)),
      ([u ''v'', u ''twice.md''], File 3 (Text b))]"

definition review_fs :: fs where
  "review_fs = two_texts review_text twice_text"

text \<open>
  A vault \<open>/a/b\<close> with one note, next to a file \<open>/a/secret.md\<close> outside it.
\<close>

definition vault_ab :: path where
  "vault_ab = [u ''a'', u ''b'']"

definition home_fs :: fs where
  "home_fs =
     [([u ''a''], Dir 1),
      ([u ''a'', u ''b''], Dir 1),
      ([u ''a'', u ''b'', u ''x.md''], File 5 (Text (u ''hello''))),
      ([u ''a'', u ''secret.md''], File 6 (Text (u ''secret'')))]"

text \<open>A two-line note to write.\<close>

definition plan_text :: ustr where
  "plan_text = u ''first'' @ [10] @ u ''second''"

text \<open>
  The filesystem \<open>home_fs\<close> after the note \<open>/a/b/x.md\<close> has been moved to \<open>/a/a/b/x.md\<close>.
\<close>

definition escaped_fs :: fs where
  "escaped_fs =
     [([u ''a''], Dir 1),
      ([u ''a'', u ''b''], Dir 1),
      ([u ''a'', u ''secret.md''], File 6 (Text (u ''secret''))),
      ([u ''a'', u ''b'', u ''.trash''], Dir 9),
      ([u ''a'', u ''a''], Dir 9),
      ([u ''a'', u ''a'', u ''b''], Dir 9),
      ([u ''a'', u ''a'', u ''b'', u ''x.md''], File 5 (Text (u ''hello'')))]"

text \<open>The filesystem \<open>home_fs\<close> after \<open>x.md\<close> has been moved to the trash at time 9.\<close>

definition trashed_fs :: fs where
  "trashed_fs =
     [([u ''a''], Dir 1),
      ([u ''a'', u ''b''], Dir 1),
      ([u ''a'', u ''secret.md''], File 6 (Text (u ''secret''))),
      ([u ''a'', u ''b'', u ''.trash''], Dir 9),
      ([u ''a'', u ''b'', u ''.trash'', u ''x.md''], File 5 (Text (u ''hello'')))]"

section \<open>Simplifier setup\<close>

declare mkdir_parents.simps [simp del]

section \<open>Facts about substrings of a rendered path\<close>

lemma sublist_slash_block:
  assumes n: "n \<noteq> []" "slash \<notin> set n"
    and r: "r = [] \<or> hd r = slash"
  shows "sublist n (slash # s @ r) \<longleftrightarrow> sublist n s \<or> sublist n r"
proof -
  have no_pre: "\<not> prefix n (slash # zs)" for zs
    using n by (cases n) auto
  have split: "sublist n s \<or> sublist n r"
    if "n = n1 @ n2" "suffix n1 s" "prefix n2 r" for n1 n2
  proof (cases "n2 = []")
    case True
    with that show ?thesis by (auto simp: suffix_def)
  next
    case False
    with that(3) have "r \<noteq> []" by auto
    with r have "hd r = slash" by simp
    moreover from False that(3) \<open>r \<noteq> []\<close> have "hd n2 = hd r"
      by (cases n2; cases r) auto
    ultimately have "slash \<in> set n2" using False by (cases n2) auto
    with that(1) n show ?thesis by simp
  qed
  have "sublist n (slash # s @ r) \<longleftrightarrow> sublist n (s @ r)"
    by (simp add: sublist_Cons_right no_pre)
  also have "\<dots> \<longleftrightarrow> sublist n s \<or> sublist n r"
    using split by (auto simp: sublist_append)
  finally show ?thesis .
qed

lemma join_Nil_or_slash:
  "concat (map (\<lambda>s. slash # s) p) = [] \<or> hd (concat (map (\<lambda>s. slash # s) p)) = slash"
  by (cases p) simp_all

lemma sublist_join:
  assumes "n \<noteq> []" "slash \<notin> set n"
  shows "sublist n (concat (map (\<lambda>s. slash # s) p)) \<longleftrightarrow> (\<exists>s\<in>set p. sublist n s)"
proof (induction p)
  case Nil
  from assms show ?case by simp
next
  case (Cons s p)
  have "sublist n (slash # s @ concat (map (\<lambda>s. slash # s) p))
          \<longleftrightarrow> sublist n s \<or> sublist n (concat (map (\<lambda>s. slash # s) p))"
    by (rule sublist_slash_block [OF assms join_Nil_or_slash])
  with Cons.IH show ?case by auto
qed

lemma sublist_str_path:
  assumes "n \<noteq> []" "slash \<notin> set n"
  shows "sublist n (str_path p) \<longleftrightarrow> (\<exists>s\<in>set p. sublist n s)"
proof (cases "p = []")
  case True
  have "\<not> sublist n [slash]"
    using assms by (cases n) (auto simp: sublist_Cons_right)
  with True show ?thesis by (simp add: str_path_def)
next
  case False
  then show ?thesis by (simp add: str_path_def sublist_join [OF assms])
qed

lemma name_obsidian: "u ''.obsidian'' \<noteq> []" "slash \<notin> set (u ''.obsidian'')"
  by (simp_all add: u_def slash_def)

lemma name_trash: "u ''.trash'' \<noteq> []" "slash \<notin> set (u ''.trash'')"
  by (simp_all add: u_def slash_def)

lemma root_part_not_dotted: "\<not> prefix (u ''.'') [slash]"
  by (simp add: u_def slash_def)

lemma is_hidden_or_system_iff:
  "is_hidden_or_system p \<longleftrightarrow> (\<exists>s\<in>set p. hidden_by_segment s)"
  by (auto simp: is_hidden_or_system_def Let_def parts_def list_ex_iff hidden_by_segment_def
      sublist_str_path [OF name_obsidian] sublist_str_path [OF name_trash] root_part_not_dotted)

section \<open>Claims about the HiddenFilter\<close>

text \<open>
  C3, as stated: the predicate is true exactly when some segment starts with a dot or is
  the metadata or trash folder name. The code disagrees on \<open>/v/my.obsidian/a.md\<close>: no
  segment starts with a dot and none is one of the two names, yet the path is classified
  hidden, because the names are looked for as substrings of the rendered path.
\<close>

theorem C3_whole_segment_counterexample:
  "is_hidden_or_system [u ''v'', u ''my.obsidian'', u ''a.md'']
     \<noteq> hidden_by_whole_segment [u ''v'', u ''my.obsidian'', u ''a.md'']"
  by (simp add: is_hidden_or_system_iff hidden_by_segment_def hidden_by_whole_segment_def
      u_def sublist_code)

text \<open>
  C3, amended: the predicate is a pure function of the path that is true if and only if
  some segment starts with a dot or contains the metadata folder name or the trash folder
  name as a substring; a path with no such segment is classified visible.
\<close>

theorem C3_hidden_iff_segment_contains:
  "is_hidden_or_system p \<longleftrightarrow>
     (\<exists>s\<in>set p. prefix (u ''.'') s \<or> sublist (u ''.obsidian'') s \<or> sublist (u ''.trash'') s)"
  by (simp add: is_hidden_or_system_iff hidden_by_segment_def)

theorem C3_hidden_iff_segment_contains_witness:
  "is_hidden_or_system [u ''v'', u ''a.trash.d'', u ''n.md''] \<and>
   \<not> is_hidden_or_system [u ''v'', u ''notes'', u ''n.md'']"
  using C3_hidden_iff_segment_contains [of "[u ''v'', u ''a.trash.d'', u ''n.md'']"]
    C3_hidden_iff_segment_contains [of "[u ''v'', u ''notes'', u ''n.md'']"]
  by (simp add: u_def sublist_code)

section \<open>Facts about the filesystem operations\<close>

lemma write_text_ok:
  "open_w now fs raw = Inr (t, fs1) \<Longrightarrow> encodable data \<Longrightarrow>
     write_text now fs raw data = (None, AList.update t (File now (Text data)) fs1)"
  by (simp add: write_text_def)

lemma encodable_ascii: "encodable (u s)"
proof -
  have "of_char c < (55296::nat)" for c :: char
    using nat_of_char_less_256 [of c] by linarith
  then show ?thesis by (simp add: encodable_def u_def list_all_iff)
qed

lemma node_at_update:
  "t \<noteq> [] \<Longrightarrow> node_at (AList.update t v fs) q = (if q = t then Some v else node_at fs q)"
  by (auto simp: node_at_def update_conv')

lemma walk_append:
  "walk fs cur (xs @ ys) = (case walk fs cur xs of Inl e \<Rightarrow> Inl e | Inr d \<Rightarrow> walk fs d ys)"
proof (induction xs arbitrary: cur)
  case Nil
  show ?case by (cases ys) (auto split: option.splits node.splits)
next
  case (Cons x xs)
  then show ?case by (auto split: option.splits node.splits)
qed

lemma walk_keeps_dirs:
  assumes "\<And>q. is_dir_node (node_at fs q) \<Longrightarrow> node_at fs' q = node_at fs q"
    and "walk fs cur ss = Inr d" "is_dir_node (node_at fs d)"
  shows "walk fs' cur ss = Inr d"
  using assms(2,3)
proof (induction ss arbitrary: cur)
  case Nil
  then have "d = cur" by (auto split: option.splits)
  with Nil assms(1) [of cur] show ?case by (auto split: option.splits)
next
  case (Cons s ss)
  from Cons.prems(1) have "is_dir_node (node_at fs cur)"
    by (auto split: option.splits node.splits)
  with assms(1) [of cur] have "node_at fs' cur = node_at fs cur" by simp
  with Cons show ?case by (auto split: option.splits node.splits)
qed

lemma open_w_then_update:
  assumes "open_w now fs raw = Inr (t, fs1)"
  shows "lookup (AList.update t (File now b) fs1) raw = Inr t \<and>
         node_at (AList.update t (File now b) fs1) t = Some (File now b)"
proof -
  let ?fs' = "AList.update t (File now b) fs1"
  from assms obtain d where o: "raw \<noteq> []" "lookup fs (butlast raw) = Inr d"
      "is_dir_node (node_at fs d)" "last raw \<noteq> u ''..''"
      "\<not> is_dir_node (node_at fs (d @ [last raw]))" "t = d @ [last raw]"
      "fs1 = AList.update t (File now (Text [])) fs"
    by (auto simp: open_w_def split: if_splits sum.splits)
  have t: "t \<noteq> []" using o(6) by simp
  have n: "node_at ?fs' q = (if q = t then Some (File now b) else node_at fs q)" for q
    by (simp add: o(7) node_at_update [OF t])
  have keep: "node_at ?fs' q = node_at fs q" if "is_dir_node (node_at fs q)" for q
    using that o(5,6) n by auto
  have w: "walk ?fs' [] (butlast raw) = Inr d"
    by (rule walk_keeps_dirs [OF keep]) (use o(2,3) in \<open>simp_all add: lookup_def\<close>)
  have "is_dir_node (node_at ?fs' d)" using keep [OF o(3)] o(3) by simp
  then have "walk ?fs' d [last raw] = Inr t"
    using o(4,6) n by (cases "node_at ?fs' d" rule: is_dir_node.cases) (auto simp: step_def)
  with w have "walk ?fs' [] (butlast raw @ [last raw]) = Inr t"
    by (simp add: walk_append)
  with o(1) n show ?thesis by (simp add: lookup_def)
qed

lemma walk_result: "walk fs cur ss = Inr c \<Longrightarrow> c = foldl step cur ss \<and> node_at fs c \<noteq> None"
  by (induction ss arbitrary: cur) (auto split: option.splits node.splits)

lemma foldl_step_plain: "u ''..'' \<notin> set ss \<Longrightarrow> foldl step cur ss = cur @ ss"
  by (induction ss arbitrary: cur) (auto simp: step_def)

lemma lookup_plain:
  "u ''..'' \<notin> set raw \<Longrightarrow> lookup fs raw = Inr c \<Longrightarrow> c = raw \<and> node_at fs raw \<noteq> None"
proof -
  assume p: "u ''..'' \<notin> set raw" and l: "lookup fs raw = Inr c"
  from l have "c = foldl step [] raw" "node_at fs c \<noteq> None"
    using walk_result [of fs "[]" raw c] unfolding lookup_def by blast+
  moreover from p have "foldl step [] raw = raw" by (simp add: foldl_step_plain)
  ultimately show ?thesis by simp
qed

lemma walk_one:
  "walk fs d [s] = Inr c \<longleftrightarrow>
     is_dir_node (node_at fs d) \<and> c = step d s \<and> node_at fs (step d s) \<noteq> None"
  by (cases "node_at fs d" rule: is_dir_node.cases) (auto split: option.splits)

lemma lookup_snoc:
  "lookup fs (xs @ [s]) = Inr c \<longleftrightarrow>
     (\<exists>d. lookup fs xs = Inr d \<and> is_dir_node (node_at fs d) \<and> c = step d s \<and>
          node_at fs (step d s) \<noteq> None)"
  unfolding lookup_def walk_append
  by (auto simp: walk_one simp del: walk.simps split: sum.splits)

lemma grown_refl: "grown now fs fs"
  by (simp add: grown_def)

lemma grown_trans: "grown now fs fs1 \<Longrightarrow> grown now fs1 fs2 \<Longrightarrow> grown now fs fs2"
  unfolding grown_def by (metis option.distinct(1))

lemma os_mkdir_grown: "os_mkdir now fs raw = Inr fs' \<Longrightarrow> grown now fs fs'"
  by (auto simp: os_mkdir_def grown_def node_at_update split: if_splits sum.splits)

lemma mkdir_exist_ok_grown: "mkdir_exist_ok now fs raw = (r, fs') \<Longrightarrow> grown now fs fs'"
  by (auto simp: mkdir_exist_ok_def grown_refl os_mkdir_grown split: sum.splits if_splits)

lemma mkdir_parents_grown: "mkdir_parents now fs raw = (r, fs') \<Longrightarrow> grown now fs fs'"
proof (induction now fs raw arbitrary: r fs' rule: mkdir_parents.induct)
  case (1 now fs raw)
  show ?case
  proof (cases "os_mkdir now fs raw")
    case (Inr x)
    with "1.prems" show ?thesis
      by (subst (asm) mkdir_parents.simps) (auto simp: os_mkdir_grown)
  next
    case (Inl e)
    show ?thesis
    proof (cases "e = ENOENT \<and> raw \<noteq> []")
      case False
      with Inl "1.prems" show ?thesis
        by (subst (asm) mkdir_parents.simps) (auto simp: grown_refl split: if_splits)
    next
      case True
      obtain r1 fs1 where p: "mkdir_parents now fs (butlast raw) = (r1, fs1)"
        by (cases "mkdir_parents now fs (butlast raw)") auto
      from "1.IH" [OF Inl _ _ p] True have g1: "grown now fs fs1" by simp
      show ?thesis
      proof (cases r1)
        case (Some x)
        with Inl True p "1.prems" have "fs' = fs1"
          by (subst (asm) mkdir_parents.simps) auto
        with g1 show ?thesis by simp
      next
        case None
        with Inl True p "1.prems" have "mkdir_exist_ok now fs1 raw = (r, fs')"
          by (subst (asm) mkdir_parents.simps) auto
        from g1 mkdir_exist_ok_grown [OF this] show ?thesis by (rule grown_trans)
      qed
    qed
  qed
qed

lemma walk_grown:
  "grown now fs fs1 \<Longrightarrow> walk fs cur ss = Inr c \<Longrightarrow> walk fs1 cur ss = Inr c"
proof (induction ss arbitrary: cur)
  case Nil
  then show ?case by (auto simp: grown_def split: option.splits)
next
  case (Cons s ss)
  from Cons.prems(2) have "node_at fs cur \<noteq> None" by (auto split: option.splits)
  with Cons.prems(1) have "node_at fs1 cur = node_at fs cur" by (simp add: grown_def)
  with Cons show ?case by (auto split: option.splits node.splits)
qed

lemma universal_newlines_id: "13 \<notin> set c \<Longrightarrow> universal_newlines c = c"
  by (induction c rule: universal_newlines.induct) auto

section \<open>The scanning loops\<close>

lemma bounded_collect_eq:
  "bounded_collect body limit es acc =
     acc @ take (nat (max 1 (limit - int (length acc)))) (List.map_filter body es)"
proof (induction es arbitrary: acc)
  case Nil
  show ?case by (simp add: List.map_filter_simps)
next
  case (Cons e es)
  show ?case
  proof (cases "body e")
    case None
    then show ?thesis using Cons.IH [of acc] by (simp add: List.map_filter_simps)
  next
    case (Some r)
    have c: "List.map_filter body (e # es) = r # List.map_filter body es"
      using Some by (simp add: List.map_filter_simps)
    show ?thesis
    proof (cases "limit \<le> int (length acc) + 1")
      case True
      then have "nat (max 1 (limit - int (length acc))) = 1" by simp
      with True Some c show ?thesis by simp
    next
      case False
      then have n: "nat (max 1 (limit - int (length acc)))
          = Suc (nat (max 1 (limit - int (length (acc @ [r])))))"
        by simp
      from False Some
      have "bounded_collect body limit (e # es) acc = bounded_collect body limit es (acc @ [r])"
        by simp
      also have "\<dots> = (acc @ [r]) @ take (nat (max 1 (limit - int (length (acc @ [r])))))
          (List.map_filter body es)"
        by (rule Cons.IH)
      finally show ?thesis unfolding c n by simp
    qed
  qed
qed

lemma list_loop_collect:
  "list_loop vault fs limit es files =
     bounded_collect (\<lambda>e. if is_hidden_or_system e then None
            else case list_item vault fs e of Inl _ \<Rightarrow> None | Inr d \<Rightarrow> Some d) limit es files"
  by (induction es arbitrary: files) (auto split: sum.splits)

lemma title_loop_collect:
  "title_loop lw vault fs ql limit es results =
     bounded_collect (\<lambda>e. if is_hidden_or_system e \<or> \<not> sublist ql (lw (stem e)) then None
            else case title_item vault fs e of Inl _ \<Rightarrow> None | Inr r \<Rightarrow> Some r) limit es results"
  by (induction es arbitrary: results) (auto split: sum.splits)

lemma text_loop_collect:
  "text_loop lw vault fs query limit es results =
     bounded_collect (\<lambda>e. if is_hidden_or_system e then None
            else case text_item lw vault fs query e of Inl _ \<Rightarrow> None | Inr r \<Rightarrow> r) limit es results"
  by (induction es arbitrary: results) (auto split: sum.splits option.splits)

lemma list_loop_eq:
  "list_loop vault fs limit es [] = take (nat (max 1 limit)) (list_candidates vault fs es)"
  by (simp add: list_loop_collect bounded_collect_eq list_candidates_def)

lemma title_loop_eq:
  "title_loop lw vault fs ql limit es [] =
     take (nat (max 1 limit)) (title_candidates lw vault fs ql es)"
  by (simp add: title_loop_collect bounded_collect_eq title_candidates_def)

lemma text_loop_eq:
  "text_loop lw vault fs query limit es [] =
     take (nat (max 1 limit)) (text_candidates lw vault fs query es)"
  by (simp add: text_loop_collect bounded_collect_eq text_candidates_def)

lemma sorted_desc_sorted: "sorted (rev (map key (sorted_desc key xs)))"
  by (simp add: sorted_desc_def rev_map [symmetric])

section \<open>Claims about listNotes\<close>

text \<open>
  C2, as stated: the result is the \<open>limit\<close> most recently modified matches, the full set
  being sorted before it is truncated. In the vault \<open>two_notes\<close> with limit 1 the code
  returns the older note, the first one the scan meets; collecting, sorting and then
  truncating returns the newer one.
\<close>

theorem C2_most_recent_counterexample:
  "list_markdown_files vault_v two_notes None 1 = [Item (u ''old'') (u ''old.md'') 1 3] \<and>
   list_notes_collect_sort_truncate vault_v two_notes None 1
     = [Item (u ''new'') (u ''new.md'') 2 3]"
  by code_simp

text \<open>
  C2, amended: for a limit of at least 1, listNotes stops scanning at the first \<open>limit\<close>
  matching entries it meets (non-hidden entries named \<open>*.md\<close> under the folder), and
  returns exactly those, sorted by modified time descending; it returns nothing when
  the folder does not exist.
\<close>

theorem C2_first_limit_then_sorted:
  assumes "1 \<le> limit"
  shows "list_markdown_files vault fs folder limit =
           (if exists fs (search_path vault folder)
            then sorted_desc item_modified (take (nat limit)
                   (list_candidates vault fs (rglob fs (search_path vault folder) md_pattern)))
            else [])
         \<and> sorted (rev (map item_modified (list_markdown_files vault fs folder limit)))"
proof -
  from assms have "max 1 limit = limit" by simp
  then show ?thesis
    by (simp add: list_markdown_files_def list_loop_eq sorted_desc_sorted)
qed

lemma two_notes_candidates:
  "exists two_notes (search_path vault_v None) \<and>
   list_candidates vault_v two_notes (rglob two_notes (search_path vault_v None) md_pattern)
     = [Item (u ''old'') (u ''old.md'') 1 3, Item (u ''new'') (u ''new.md'') 2 3]"
  by code_simp

theorem C2_first_limit_then_sorted_witness:
  "list_markdown_files vault_v two_notes None 2
     = [Item (u ''new'') (u ''new.md'') 2 3, Item (u ''old'') (u ''old.md'') 1 3]"
proof -
  have "(1::int) \<le> 2" by simp
  from C2_first_limit_then_sorted [OF this, of vault_v two_notes None]
  show ?thesis
    by (simp add: two_notes_candidates sorted_desc_def)
qed

section \<open>Claims about the dispatcher\<close>

text \<open>
  C8: for every operation name that is not one of the defined names (nine operations
  under ten names, \<open>create_note\<close> and \<open>update_note\<close> being one), the dispatcher returns,
  for any argument object, the error result whose message is \<open>Unknown tool:\<close> followed
  by the name; this is an ordinary return (no exception reaches the handler or leaves
  the function) and the filesystem is untouched.
\<close>

theorem C8_unknown_tool_named:
  assumes "name \<notin> set tool_names"
  shows "call_tool lw alnum vault now fs name arguments
           = (Reply (Error (u ''Unknown tool: '' @ name)), fs)"
  using assms by (simp add: call_tool_def tool_names_def)

theorem C8_unknown_tool_named_witness:
  "u ''rename_note'' \<notin> set tool_names \<and>
   call_tool ascii_lower (\<lambda>c. False) vault_v 5 two_notes (u ''rename_note'') no_arguments
     = (Reply (Error (u ''Unknown tool: rename_note'')), two_notes)"
proof -
  have h: "u ''rename_note'' \<notin> set tool_names"
    by (simp add: tool_names_def u_def)
  from C8_unknown_tool_named [OF h, of ascii_lower "\<lambda>c. False" vault_v 5 two_notes no_arguments] h
  show ?thesis by (simp add: u_def)
qed

section \<open>A hidden vault root\<close>

lemma hidden_root_iff: "hidden_root vault \<longleftrightarrow> is_hidden_or_system vault"
  by (simp add: hidden_root_def is_hidden_or_system_def Let_def parts_def
      root_part_not_dotted disj_ac)

lemma hidden_below: "is_hidden_or_system vault \<Longrightarrow> is_hidden_or_system (vault @ rest)"
  by (auto simp: is_hidden_or_system_iff)

lemma rglob_entries: "e \<in> set (rglob fs raw matches) \<Longrightarrow> \<exists>rest. e = raw @ rest"
  by (auto simp: rglob_def split: sum.splits)

lemma map_filter_none: "(\<And>e. e \<in> set es \<Longrightarrow> body e = None) \<Longrightarrow> List.map_filter body es = []"
  by (induction es) (simp_all add: List.map_filter_simps)

lemma list_item_outside: "\<not> prefix vault e \<Longrightarrow> \<exists>x. list_item vault fs e = Inl x"
  by (auto simp: list_item_def str_relative_to_def split: sum.splits)

lemma hidden_root_list_candidates:
  assumes "is_hidden_or_system vault"
  shows "list_candidates vault fs es = []"
  unfolding list_candidates_def
proof (rule map_filter_none)
  fix e
  show "(if is_hidden_or_system e then None
         else case list_item vault fs e of Inl _ \<Rightarrow> None | Inr d \<Rightarrow> Some d) = None"
  proof (cases "prefix vault e")
    case True
    then obtain rest where "e = vault @ rest" by (auto simp: prefix_def)
    with assms have "is_hidden_or_system e" by (simp add: hidden_below)
    then show ?thesis by simp
  next
    case False
    from list_item_outside [OF this] obtain x where "list_item vault fs e = Inl x" ..
    then show ?thesis by simp
  qed
qed

lemma hidden_root_entries:
  assumes "is_hidden_or_system vault" "e \<in> set (rglob fs vault matches)"
  shows "is_hidden_or_system e"
  using assms rglob_entries [of e fs vault matches] by (auto simp: hidden_below)

lemma hidden_root_title_candidates:
  assumes "is_hidden_or_system vault"
  shows "title_candidates lw vault fs ql (rglob fs vault matches) = []"
  unfolding title_candidates_def
  by (rule map_filter_none) (simp add: hidden_root_entries [OF assms])

lemma hidden_root_text_candidates:
  assumes "is_hidden_or_system vault"
  shows "text_candidates lw vault fs query (rglob fs vault matches) = []"
  unfolding text_candidates_def
  by (rule map_filter_none) (simp add: hidden_root_entries [OF assms])

lemma folders_loop_hidden:
  "(\<And>e. e \<in> set es \<Longrightarrow> is_hidden_or_system e) \<Longrightarrow> folders_loop vault fs es acc = Inr acc"
  by (induction es arbitrary: acc) simp_all

lemma tags_loop_hidden:
  "(\<And>e. e \<in> set es \<Longrightarrow> is_hidden_or_system e) \<Longrightarrow> tags_loop alnum fs es tags = tags"
  by (induction es arbitrary: tags) simp_all

lemma filter_hidden_empty:
  "(\<And>e. e \<in> set es \<Longrightarrow> is_hidden_or_system e) \<Longrightarrow>
     filter (\<lambda>e. P e \<and> \<not> is_hidden_or_system e) es = []"
  by (induction es) simp_all

text \<open>
  C10: the hidden test is made on the full absolute path of each entry, so when a segment
  of the vault root's own path starts with a dot, or its path string contains the
  metadata or trash folder name, every path at or below the root is classified hidden,
  and listing (for any folder argument), title search, full-text search, folder listing
  and tag extraction return nothing, and the statistics report zero notes and zero
  folders (or the vault as not found when the root does not exist).
\<close>

theorem C10_hidden_root_empties_vault:
  assumes "hidden_root vault"
  shows "is_hidden_or_system (vault @ rest) \<and>
         list_markdown_files vault fs folder limit = [] \<and>
         search_by_title lw vault fs query limit = [] \<and>
         full_text_search lw vault fs query limit = [] \<and>
         list_folders vault fs = Inr [] \<and>
         get_tags alnum vault fs = [] \<and>
         get_vault_info vault fs =
           (if exists fs vault then VaultInfo (str_path vault) 0 0
            else Error (u ''Vault not found: '' @ str_path vault))"
proof -
  from assms have h: "is_hidden_or_system vault" by (simp add: hidden_root_iff)
  have 1: "is_hidden_or_system (vault @ rest)" by (rule hidden_below [OF h])
  have 2: "list_markdown_files vault fs folder limit = []"
    by (simp add: list_markdown_files_def list_loop_eq hidden_root_list_candidates [OF h]
        sorted_desc_def)
  have 3: "search_by_title lw vault fs query limit = []"
    by (simp add: search_by_title_def title_loop_eq hidden_root_title_candidates [OF h])
  have 4: "full_text_search lw vault fs query limit = []"
    by (simp add: full_text_search_def text_loop_eq hidden_root_text_candidates [OF h])
  have 5: "list_folders vault fs = Inr []"
    by (simp add: list_folders_def folders_loop_hidden hidden_root_entries [OF h])
  have 6: "get_tags alnum vault fs = []"
    by (simp add: get_tags_def tags_loop_hidden hidden_root_entries [OF h])
  have n: "filter (\<lambda>f. \<not> is_hidden_or_system f) (rglob fs vault md_pattern) = []"
    using filter_hidden_empty [of "rglob fs vault md_pattern" "\<lambda>e. True"]
      hidden_root_entries [OF h] by simp
  have f: "filter (\<lambda>d. is_dir fs d \<and> \<not> is_hidden_or_system d) (rglob fs vault any_pattern) = []"
    by (rule filter_hidden_empty) (rule hidden_root_entries [OF h])
  have 7: "get_vault_info vault fs =
           (if exists fs vault then VaultInfo (str_path vault) 0 0
            else Error (u ''Vault not found: '' @ str_path vault))"
    by (simp add: get_vault_info_def n f)
  from 1 2 3 4 5 6 7 show ?thesis by simp
qed

lemma dotted_vault_facts:
  "hidden_root dotted_vault \<and> exists dotted_fs dotted_vault \<and>
   rglob dotted_fs dotted_vault md_pattern = [[u ''.notes'', u ''vault'', u ''n.md'']]"
  by code_simp

theorem C10_hidden_root_empties_vault_witness:
  "hidden_root dotted_vault \<and>
   rglob dotted_fs dotted_vault md_pattern = [[u ''.notes'', u ''vault'', u ''n.md'']] \<and>
   is_hidden_or_system (dotted_vault @ [u ''n.md'']) \<and>
   list_markdown_files dotted_vault dotted_fs None 20 = [] \<and>
   search_by_title ascii_lower dotted_vault dotted_fs (u ''n'') 20 = [] \<and>
   full_text_search ascii_lower dotted_vault dotted_fs (u ''text'') 20 = [] \<and>
   list_folders dotted_vault dotted_fs = Inr [] \<and>
   get_tags (\<lambda>c. False) dotted_vault dotted_fs = [] \<and>
   get_vault_info dotted_vault dotted_fs = VaultInfo (u ''/.notes/vault'') 0 0"
proof -
  have h: "hidden_root dotted_vault" using dotted_vault_facts by simp
  have s: "str_path dotted_vault = u ''/.notes/vault''" by code_simp
  note t = C10_hidden_root_empties_vault [OF h, where rest = "[u ''n.md'']" and fs = dotted_fs
      and folder = None and limit = 20 and lw = ascii_lower and alnum = "\<lambda>c. False"]
  from t [where query = "u ''n''"] t [where query = "u ''text''"]
    dotted_vault_facts s
  show ?thesis by simp
qed

section \<open>Searching a text\<close>

lemma find_range: "- 1 \<le> find s sub \<and> find s sub \<le> int (length s)"
  by (induction s) (auto simp: Let_def)

lemma find_nonneg_iff: "0 \<le> find s sub \<longleftrightarrow> sublist sub s"
proof (induction s)
  case Nil
  show ?case by simp
next
  case (Cons c cs)
  then show ?case
    by (auto simp: Let_def sublist_Cons_right)
qed

lemma find_first:
  "find s sub = int i \<Longrightarrow>
     i \<le> length s \<and> prefix sub (drop i s) \<and> (\<forall>j<i. \<not> prefix sub (drop j s))"
proof (induction s arbitrary: i)
  case Nil
  then show ?case by (auto split: if_splits)
next
  case (Cons c cs)
  show ?case
  proof (cases "prefix sub (c # cs)")
    case True
    with Cons.prems show ?thesis by simp
  next
    case False
    with Cons.prems have f: "find cs sub = int i - 1" and "0 \<le> find cs sub"
      by (auto simp: Let_def split: if_splits)
    then obtain k where k: "i = Suc k" by (cases i) auto
    with f have "find cs sub = int k" by simp
    from Cons.IH [OF this]
    have ih: "k \<le> length cs" "prefix sub (drop k cs)" "\<forall>j<k. \<not> prefix sub (drop j cs)"
      by auto
    have "\<not> prefix sub (drop j (c # cs))" if "j < i" for j
    proof (cases j)
      case 0
      with False show ?thesis by simp
    next
      case (Suc j')
      with that k ih(3) show ?thesis by simp
    qed
    with ih k show ?thesis by simp
  qed
qed

lemma find_empty: "find s [] = 0"
  by (cases s) simp_all

lemma slice_window:
  "slice s (int a) (int b) = take (min (length s) b - a) (drop a s)"
proof -
  have "take (nat (min (int b) (int (length s)) - min (int a) (int (length s))))
          (drop (nat (min (int a) (int (length s)))) s)
        = take (min (length s) b - a) (drop a s)"
  proof (cases "a \<le> length s")
    case True
    then have "nat (min (int b) (int (length s)) - min (int a) (int (length s)))
        = min (length s) b - a" by (auto simp: min_def nat_diff_distrib')
    moreover from True have "nat (min (int a) (int (length s))) = a" by simp
    ultimately show ?thesis by simp
  next
    case False
    then show ?thesis by simp
  qed
  then show ?thesis by (simp add: slice_def clamp_index_def Let_def)
qed

lemma make_snippet_eq:
  assumes "find (lw content) (lw query) = int i"
  shows "make_snippet lw query content =
           u ''...'' @ replace_newlines
              (take (min (length content) (i + length query + 50) - (i - 50))
                 (drop (i - 50) content)) @ u ''...''"
proof -
  have s: "max 0 (int i - 50) = int (i - 50)" by simp
  have e: "min (int (length content)) (int i + int (length query) + 50)
        = int (min (length content) (i + length query + 50))" by simp
  have "slice content (int (i - 50)) (int (min (length content) (i + length query + 50)))
        = take (min (length content) (i + length query + 50) - (i - 50)) (drop (i - 50) content)"
    by (simp add: slice_window)
  then show ?thesis
    unfolding make_snippet_def Let_def assms s e by simp
qed

lemma in_map_filter: "h \<in> set (List.map_filter f es) \<longleftrightarrow> (\<exists>e\<in>set es. f e = Some h)"
  by (induction es) (auto simp: List.map_filter_simps split: option.splits)

lemma text_item_Some_iff:
  "text_item lw vault fs query e = Inr (Some h) \<longleftrightarrow>
     (\<exists>content m sz p. read_text fs e = Inr content \<and> sublist (lw query) (lw content) \<and>
        stat fs e = Inr (m, sz) \<and> str_relative_to e vault = Inr p \<and>
        h = TextHit (stem e) p (make_snippet lw query content) m)"
  by (auto simp: text_item_def split: sum.splits prod.splits if_splits)

lemma sublist_find:
  "sublist sub s \<longleftrightarrow> (\<exists>i. find s sub = int i)"
proof
  assume "sublist sub s"
  then have "0 \<le> find s sub" by (simp add: find_nonneg_iff)
  then show "\<exists>i. find s sub = int i" by (metis nonneg_int_cases)
next
  assume "\<exists>i. find s sub = int i"
  then show "sublist sub s" by (auto simp: find_nonneg_iff [symmetric])
qed

lemma text_candidates_iff:
  "h \<in> set (text_candidates lw vault fs query es) \<longleftrightarrow>
     (\<exists>e\<in>set es. \<exists>content i m sz p.
        \<not> is_hidden_or_system e \<and> read_text fs e = Inr content \<and>
        stat fs e = Inr (m, sz) \<and> str_relative_to e vault = Inr p \<and>
        find (lw content) (lw query) = int i \<and>
        prefix (lw query) (drop i (lw content)) \<and>
        (\<forall>j<i. \<not> prefix (lw query) (drop j (lw content))) \<and>
        h = TextHit (stem e) p (window query content i) m)"
  (is "?L \<longleftrightarrow> ?R")
proof
  assume ?L
  then obtain e where e: "e \<in> set es" "\<not> is_hidden_or_system e"
      "text_item lw vault fs query e = Inr (Some h)"
    unfolding text_candidates_def in_map_filter
    by (metis (no_types, lifting) option.distinct(1) option.inject sum.case_eq_if
        sum.collapse(2) sum.disc(2) sum.simps(5) sum.simps(6) old.sum.exhaust)
  then obtain content m sz p where c: "read_text fs e = Inr content"
      "sublist (lw query) (lw content)" "stat fs e = Inr (m, sz)"
      "str_relative_to e vault = Inr p"
      "h = TextHit (stem e) p (make_snippet lw query content) m"
    by (auto simp: text_item_Some_iff)
  from c(2) obtain i where i: "find (lw content) (lw query) = int i"
    by (auto simp: sublist_find)
  from find_first [OF i]
    make_snippet_eq [where lw = lw and content = content and query = query and i = i, OF i]
    e c i show ?R
    unfolding window_def by blast
next
  assume ?R
  then obtain e content i m sz p where e: "e \<in> set es" "\<not> is_hidden_or_system e"
      "read_text fs e = Inr content" "stat fs e = Inr (m, sz)"
      "str_relative_to e vault = Inr p" "find (lw content) (lw query) = int i"
      "h = TextHit (stem e) p (window query content i) m"
    by blast
  from e(6) have "sublist (lw query) (lw content)" by (auto simp: sublist_find)
  with e make_snippet_eq [where lw = lw and content = content and query = query and i = i,
      OF e(6)]
  have "text_item lw vault fs query e = Inr (Some h)"
    by (simp add: text_item_Some_iff window_def)
  with e(1,2) show ?L
    by (auto simp: text_candidates_def in_map_filter)
qed

lemma find_unique:
  assumes "i \<le> length s" "prefix sub (drop i s)" "\<forall>j<i. \<not> prefix sub (drop j s)"
  shows "find s sub = int i"
proof -
  from assms(2) obtain zs where "drop i s = sub @ zs" by (auto simp: prefix_def)
  then have "s = take i s @ sub @ zs" by (metis append_take_drop_id)
  then have "sublist sub s" unfolding sublist_def by blast
  then obtain k where k: "find s sub = int k" by (auto simp: sublist_find)
  from find_first [OF k] assms have "\<not> k < i" "\<not> i < k" by auto
  with k show ?thesis by simp
qed

lemma first_match_Some_iff:
  "first_match lw query content = Some i \<longleftrightarrow>
     i \<le> length content \<and> matches_at lw query content i \<and>
     (\<forall>j<i. \<not> matches_at lw query content j)"
  unfolding first_match_def find_Some_iff
  by (auto simp del: upt_Suc simp: less_Suc_eq_le)

lemma pointwise_prefix:
  assumes lw: "\<And>s. lw s = map f s" and i: "i \<le> length content"
  shows "prefix (lw query) (drop i (lw content)) \<longleftrightarrow> matches_at lw query content i"
proof
  assume "prefix (lw query) (drop i (lw content))"
  then have p: "prefix (map f query) (map f (drop i content))" by (simp add: lw drop_map)
  then have "length query \<le> length (drop i content)"
    using prefix_length_le by fastforce
  with i have l: "i + length query \<le> length content" by simp
  from p obtain zs where "map f (drop i content) = map f query @ zs"
    by (auto simp: prefix_def)
  then have "take (length query) (map f (drop i content)) = map f query" by simp
  then have "map f (take (length query) (drop i content)) = map f query"
    by (simp add: take_map)
  with l show "matches_at lw query content i" by (simp add: matches_at_def lw)
next
  assume "matches_at lw query content i"
  then have "map f (take (length query) (drop i content)) = map f query"
    by (simp add: matches_at_def lw)
  moreover have "prefix (map f (take (length query) (drop i content))) (map f (drop i content))"
    by (simp add: map_mono_prefix take_is_prefix)
  ultimately show "prefix (lw query) (drop i (lw content))" by (simp add: lw drop_map)
qed

lemma find_is_first_match:
  assumes lw: "\<And>s. lw s = map f s"
  shows "find (lw content) (lw query) = int i \<longleftrightarrow> first_match lw query content = Some i"
proof
  assume "find (lw content) (lw query) = int i"
  from find_first [OF this]
  have f: "i \<le> length (lw content)" "prefix (lw query) (drop i (lw content))"
    "\<forall>j<i. \<not> prefix (lw query) (drop j (lw content))" by auto
  from f(1) have i: "i \<le> length content" by (simp add: lw)
  from f(2) i have "matches_at lw query content i"
    using pointwise_prefix [of lw f i content query] lw by blast
  moreover have "\<not> matches_at lw query content j" if "j < i" for j
    using that f(3) i pointwise_prefix [of lw f j content query] lw by auto
  ultimately show "first_match lw query content = Some i"
    using i by (simp add: first_match_Some_iff)
next
  assume "first_match lw query content = Some i"
  then have m: "i \<le> length content" "matches_at lw query content i"
    "\<forall>j<i. \<not> matches_at lw query content j" by (auto simp: first_match_Some_iff)
  from m(1) have "i \<le> length (lw content)" by (simp add: lw)
  moreover from m(1,2) have "prefix (lw query) (drop i (lw content))"
    using pointwise_prefix [of lw f i content query] lw by blast
  moreover have "\<not> prefix (lw query) (drop j (lw content))" if "j < i" for j
    using that m(1,3) pointwise_prefix [of lw f j content query] lw by auto
  ultimately show "find (lw content) (lw query) = int i"
    by (intro find_unique) auto
qed

section \<open>Claims about full-text search\<close>

text \<open>
  What the code does for every lower-casing: the hits are the non-hidden readable notes
  whose lower-cased content contains the lower-cased query (\<open>text_candidates_iff\<close>), and
  the window of the snippet is placed at the offset of the first match in the lower-cased
  content. When lower-casing works code point by code point, as on ASCII text, that
  offset is the offset of the first case-insensitive match in the note, and the snippet
  is the one the specification describes: the 50 characters before the match and the 50
  after it, clipped to the content, newlines replaced by spaces, between ellipsis
  markers; for a 200-character note and a 5-character query first matching at offset
  100, characters [50,155) of the note.
\<close>

lemma snippet_around_first_match:
  assumes lw: "\<And>s. lw s = map f s"
  shows "full_text_search lw vault fs query limit =
     take (nat (max 1 limit)) (text_candidates lw vault fs query (rglob fs vault md_pattern))
   \<and> (h \<in> set (text_candidates lw vault fs query (rglob fs vault md_pattern)) \<longleftrightarrow>
       (\<exists>e\<in>set (rglob fs vault md_pattern). \<exists>content i m sz p.
          \<not> is_hidden_or_system e \<and> read_text fs e = Inr content \<and>
          stat fs e = Inr (m, sz) \<and> str_relative_to e vault = Inr p \<and>
          first_match lw query content = Some i \<and>
          h = TextHit (stem e) p (window query content i) m))
   \<and> (length doc = 200 \<and> length query = 5 \<and> first_match lw query doc = Some 100 \<longrightarrow>
        make_snippet lw query doc
          = u ''...'' @ replace_newlines (take 105 (drop 50 doc)) @ u ''...'')"
proof -
  have fm: "find (lw content) (lw query) = int i \<longleftrightarrow> first_match lw query content = Some i"
    for content i
    by (rule find_is_first_match [of lw f, OF lw])
  have a: "full_text_search lw vault fs query limit =
     take (nat (max 1 limit)) (text_candidates lw vault fs query (rglob fs vault md_pattern))"
    by (simp add: full_text_search_def text_loop_eq)
  have b: "h \<in> set (text_candidates lw vault fs query (rglob fs vault md_pattern)) \<longleftrightarrow>
       (\<exists>e\<in>set (rglob fs vault md_pattern). \<exists>content i m sz p.
          \<not> is_hidden_or_system e \<and> read_text fs e = Inr content \<and>
          stat fs e = Inr (m, sz) \<and> str_relative_to e vault = Inr p \<and>
          first_match lw query content = Some i \<and>
          h = TextHit (stem e) p (window query content i) m)" (is "?L \<longleftrightarrow> ?R")
  proof
    assume ?L
    then show ?R unfolding text_candidates_iff fm by blast
  next
    assume ?R
    then obtain e content i m sz p where e: "e \<in> set (rglob fs vault md_pattern)"
        "\<not> is_hidden_or_system e" "read_text fs e = Inr content" "stat fs e = Inr (m, sz)"
        "str_relative_to e vault = Inr p" "first_match lw query content = Some i"
        "h = TextHit (stem e) p (window query content i) m"
      by blast
    from e(6) have f: "find (lw content) (lw query) = int i" by (simp add: fm)
    from find_first [OF f] f e show ?L unfolding text_candidates_iff by blast
  qed
  have c: "make_snippet lw query doc
          = u ''...'' @ replace_newlines (take 105 (drop 50 doc)) @ u ''...''"
    if "length doc = 200" "length query = 5" "first_match lw query doc = Some 100"
  proof -
    from that(3) fm [of doc 100] have "find (lw doc) (lw query) = int 100" by simp
    from make_snippet_eq [where lw = lw and content = doc and query = query and i = 100,
        OF this] that(1,2)
    show ?thesis by simp
  qed
  from a b c show ?thesis by blast
qed

lemma apple_facts:
  "length apple_text = 200 \<and> length (u ''apple'') = 5 \<and>
   first_match ascii_lower (u ''apple'') apple_text = Some 100"
proof -
  have "find (ascii_lower apple_text) (ascii_lower (u ''apple'')) = int 100"
    by code_simp
  then have "first_match ascii_lower (u ''apple'') apple_text = Some 100"
    using find_is_first_match [of ascii_lower "\<lambda>c. if 65 \<le> c \<and> c \<le> 90 then c + 32 else c"
        apple_text "u ''apple''" 100]
    by (simp add: ascii_lower_def)
  moreover have "length apple_text = 200 \<and> length (u ''apple'') = 5"
    by (simp add: apple_text_def u_def)
  ultimately show ?thesis by simp
qed

lemma apple_candidates:
  "text_candidates ascii_lower vault_v apple_fs (u ''apple'') (rglob apple_fs vault_v md_pattern)
     = [TextHit (u ''fruit'') (u ''fruit.md'') (make_snippet ascii_lower (u ''apple'') apple_text) 3]"
  by code_simp

lemma apple_window:
  "replace_newlines (take 105 (drop 50 apple_text))
     = replicate 10 120 @ [32] @ replicate 39 120 @ u ''Apple'' @ replicate 50 121"
  by code_simp

lemma snippet_around_first_match_witness:
  "length apple_text = 200 \<and> length (u ''apple'') = 5 \<and>
   first_match ascii_lower (u ''apple'') apple_text = Some 100 \<and>
   full_text_search ascii_lower vault_v apple_fs (u ''apple'') 20
     = [TextHit (u ''fruit'') (u ''fruit.md'')
          (u ''...'' @ replicate 10 120 @ [32] @ replicate 39 120 @ u ''Apple''
             @ replicate 50 121 @ u ''...'') 3]"
  using snippet_around_first_match [where lw = ascii_lower
      and f = "\<lambda>c. if 65 \<le> c \<and> c \<le> 90 then c + 32 else c" and vault = vault_v
      and fs = apple_fs and query = "u ''apple''" and limit = 20 and doc = apple_text]
    apple_facts apple_candidates apple_window
  by (simp add: ascii_lower_def)

text \<open>
  The search in a vault of one note, and the lower-casing, the first match and the
  snippet of a note that starts with \<open>n\<close> capital dotted I's followed by \<open>apple\<close>: the
  first case-insensitive match is at offset \<open>n\<close> of the note, the lower-cased content has
  it at offset \<open>2 * n\<close>, and the window is cut out of the note at offset \<open>2 * n\<close>.
\<close>

lemma one_note_scan:
  "rglob (one_note c) vault_v md_pattern = [[u ''v'', u ''fruit.md'']]"
  "\<not> is_hidden_or_system [u ''v'', u ''fruit.md'']"
  "read_text (one_note c) [u ''v'', u ''fruit.md''] = Inr (universal_newlines c)"
  "map_sum id fst (stat (one_note c) [u ''v'', u ''fruit.md'']) = Inr 3"
  "str_relative_to [u ''v'', u ''fruit.md''] vault_v = Inr (u ''fruit.md'')"
  "stem [u ''v'', u ''fruit.md''] = u ''fruit''"
  by code_simp+

lemma one_note_search:
  "full_text_search lw vault_v (one_note c) q 20 =
     (if sublist (lw q) (lw (universal_newlines c))
      then [TextHit (u ''fruit'') (u ''fruit.md'') (make_snippet lw q (universal_newlines c)) 3]
      else [])"
proof -
  from one_note_scan(4) [of c] obtain sz where
    "stat (one_note c) [u ''v'', u ''fruit.md''] = Inr (3, sz)"
    by (cases "stat (one_note c) [u ''v'', u ''fruit.md'']") auto
  then show ?thesis
    by (simp add: full_text_search_def text_item_def one_note_scan)
qed

lemma lower_dotted_append: "lower_dotted (xs @ ys) = lower_dotted xs @ lower_dotted ys"
  by (simp add: lower_dotted_def)

lemma lower_dotted_apple: "lower_dotted (u ''apple'') = u ''apple''"
  by (simp add: lower_dotted_def u_def)

lemma lower_dotted_run:
  "lower_dotted (replicate (Suc n) 304) = 105 # 775 # lower_dotted (replicate n 304)"
  by (simp add: lower_dotted_def)

lemma find_behind_dotted:
  "find (lower_dotted (replicate n 304) @ u ''apple'' @ rest) (u ''apple'') = int (2 * n)"
proof (induction n)
  case 0
  show ?case by (simp add: lower_dotted_def u_def)
next
  case (Suc n)
  then show ?case unfolding lower_dotted_run by (simp add: u_def Let_def)
qed

lemma first_match_behind_dotted:
  "first_match lower_dotted (u ''apple'') (replicate n 304 @ u ''apple'' @ rest) = Some n"
proof -
  let ?c = "replicate n 304 @ u ''apple'' @ rest"
  have l: "length (u ''apple'') = 5" by (simp add: u_def)
  have "matches_at lower_dotted (u ''apple'') ?c n"
    by (simp add: matches_at_def l lower_dotted_apple)
  moreover have "\<not> matches_at lower_dotted (u ''apple'') ?c j" if "j < n" for j
  proof -
    from that obtain k where k: "n - j = Suc k" by (cases "n - j") auto
    with that have "drop j ?c = 304 # replicate k 304 @ u ''apple'' @ rest" by simp
    then have "take (length (u ''apple'')) (drop j ?c) = 304 # take 4 (replicate k 304 @ u ''apple'' @ rest)"
      by (simp add: l)
    then show ?thesis
      by (simp add: matches_at_def lower_dotted_def u_def)
  qed
  ultimately show ?thesis by (simp add: first_match_Some_iff)
qed

lemma snippet_behind_dotted:
  assumes "13 \<notin> set rest"
  shows "make_snippet lower_dotted (u ''apple'') (universal_newlines (replicate n 304 @ u ''apple'' @ rest))
     = window (u ''apple'') (replicate n 304 @ u ''apple'' @ rest) (2 * n)
   \<and> sublist (lower_dotted (u ''apple'')) (lower_dotted (universal_newlines (replicate n 304 @ u ''apple'' @ rest)))"
proof -
  let ?c = "replicate n 304 @ u ''apple'' @ rest"
  from assms have "13 \<notin> set ?c" by (auto simp: u_def)
  then have un: "universal_newlines ?c = ?c" by (rule universal_newlines_id)
  have f: "find (lower_dotted ?c) (lower_dotted (u ''apple'')) = int (2 * n)"
    by (simp only: lower_dotted_append lower_dotted_apple find_behind_dotted)
  then have "sublist (lower_dotted (u ''apple'')) (lower_dotted ?c)"
    using sublist_find by blast
  with make_snippet_eq [where lw = lower_dotted and content = ?c and query = "u ''apple''" and i = "2 * n", OF f]
  show ?thesis unfolding un window_def by simp
qed

text \<open>
  C6: the snippet is the 50 characters before and after the first case-insensitive
  match; for a 200-character note with \<open>apple\<close> matching at offset 100 it is characters
  [50,155) of the note. The code looks the match up in the lower-cased content and cuts
  the window out of the content itself at that offset. The lower case of U+0130 is two
  code points, so behind such characters the offset is too large. In the note
  \<open>dotted_text\<close> the first match of \<open>apple\<close> is at offset 60 and the snippet of the claim is
  the 50 dotted I's before it, \<open>apple\<close> and 50 x's; the search returns 95 x's, the
  characters [70,165), without the match. In the 200-character note \<open>dotted_200\<close> the
  first match is at offset 100 and characters [50,155) are 50 dotted I's, \<open>apple\<close> and
  50 x's; the search returns the 50 x's of [150,200).
\<close>

theorem C6_snippet_beside_match:
  "first_match lower_dotted (u ''apple'') dotted_text = Some 60
   \<and> window (u ''apple'') dotted_text 60
       = u ''...'' @ replicate 50 304 @ u ''apple'' @ replicate 50 120 @ u ''...''
   \<and> full_text_search lower_dotted vault_v (one_note dotted_text) (u ''apple'') 20
       = [TextHit (u ''fruit'') (u ''fruit.md'') (u ''...'' @ replicate 95 120 @ u ''...'') 3]
   \<and> length dotted_200 = 200
   \<and> first_match lower_dotted (u ''apple'') dotted_200 = Some 100
   \<and> take 105 (drop 50 dotted_200) = replicate 50 304 @ u ''apple'' @ replicate 50 120
   \<and> full_text_search lower_dotted vault_v (one_note dotted_200) (u ''apple'') 20
       = [TextHit (u ''fruit'') (u ''fruit.md'') (u ''...'' @ replicate 50 120 @ u ''...'') 3]"
proof -
  have l: "length (u ''apple'') = 5" by (simp add: u_def)
  have a: "first_match lower_dotted (u ''apple'') dotted_text = Some 60"
    unfolding dotted_text_def by (rule first_match_behind_dotted)
  have b: "window (u ''apple'') dotted_text 60
       = u ''...'' @ replicate 50 304 @ u ''apple'' @ replicate 50 120 @ u ''...''"
    by (simp add: window_def dotted_text_def l replace_newlines_def) (simp add: u_def)
  have c: "full_text_search lower_dotted vault_v (one_note dotted_text) (u ''apple'') 20
       = [TextHit (u ''fruit'') (u ''fruit.md'') (u ''...'' @ replicate 95 120 @ u ''...'') 3]"
    using snippet_behind_dotted [of "replicate 100 120" 60]
    by (simp add: one_note_search dotted_text_def window_def l replace_newlines_def)
  have d: "length dotted_200 = 200" by (simp add: dotted_200_def l)
  have e: "first_match lower_dotted (u ''apple'') dotted_200 = Some 100"
    unfolding dotted_200_def by (rule first_match_behind_dotted)
  have f: "take 105 (drop 50 dotted_200) = replicate 50 304 @ u ''apple'' @ replicate 50 120"
    by (simp add: dotted_200_def l)
  have g: "full_text_search lower_dotted vault_v (one_note dotted_200) (u ''apple'') 20
       = [TextHit (u ''fruit'') (u ''fruit.md'') (u ''...'' @ replicate 50 120 @ u ''...'') 3]"
    using snippet_behind_dotted [of "replicate 95 120" 100]
    by (simp add: one_note_search dotted_200_def window_def l replace_newlines_def)
  from a b c d e f g show ?thesis by (intro conjI)
qed

section \<open>The empty query\<close>

lemma make_snippet_empty_query:
  assumes "lw [] = []"
  shows "make_snippet lw [] content = u ''...'' @ replace_newlines (take 50 content) @ u ''...''"
proof -
  have "find (lw content) (lw []) = int 0" by (simp add: assms find_empty)
  from make_snippet_eq [where lw = lw and content = content and query = "[]" and i = 0, OF this]
  have "make_snippet lw [] content
      = u ''...'' @ replace_newlines (take (min (length content) 50) content) @ u ''...''"
    by simp
  moreover have "take (min (length content) 50) content = take 50 content"
    by (cases "length content \<le> 50") (simp_all add: min_def)
  ultimately show ?thesis by simp
qed

lemma map_filter_cong:
  "(\<And>e. e \<in> set es \<Longrightarrow> f e = g e) \<Longrightarrow> List.map_filter f es = List.map_filter g es"
proof (induction es)
  case Nil
  show ?case by (simp add: List.map_filter_simps)
next
  case (Cons a es)
  then have "f a = g a" "List.map_filter f es = List.map_filter g es" by simp_all
  then show ?case by (simp add: List.map_filter_simps split: option.splits)
qed

text \<open>
  C9: with the empty query (and a \<open>lower\<close> that maps the empty string to itself) both
  searches match every non-hidden note the scan can \<open>stat\<close> (and, for the full-text
  search, read), and the full-text snippet is taken from offset 0: the first 50
  characters. The number returned is \<open>max 1 limit\<close>, not \<open>limit\<close>: the loops test the
  length only after an append, so a limit of 0 (or less) still returns the first match.
\<close>

theorem C9_empty_query_matches_every_note:
  assumes "lw [] = []"
  shows "search_by_title lw vault fs [] limit = take (nat (max 1 limit)) (every_title vault fs) \<and>
         full_text_search lw vault fs [] limit = take (nat (max 1 limit)) (every_text vault fs)"
proof -
  have t: "title_candidates lw vault fs [] (rglob fs vault md_pattern) = every_title vault fs"
    unfolding title_candidates_def every_title_def by simp
  have x: "text_candidates lw vault fs [] (rglob fs vault md_pattern) = every_text vault fs"
    unfolding text_candidates_def every_text_def
    by (rule map_filter_cong)
      (auto simp: text_item_def title_item_def assms make_snippet_empty_query
        split: sum.splits prod.splits)
  show ?thesis
    by (simp add: search_by_title_def full_text_search_def title_loop_eq text_loop_eq assms t x)
qed

lemma two_notes_every:
  "every_title vault_v two_notes
     = [TitleHit (u ''old'') (u ''old.md'') 1, TitleHit (u ''new'') (u ''new.md'') 2] \<and>
   every_text vault_v two_notes
     = [TextHit (u ''old'') (u ''old.md'') (u ''...old...'') 1,
        TextHit (u ''new'') (u ''new.md'') (u ''...new...'') 2]"
  by code_simp

theorem C9_empty_query_matches_every_note_witness:
  "ascii_lower [] = [] \<and>
   search_by_title ascii_lower vault_v two_notes [] 0 = [TitleHit (u ''old'') (u ''old.md'') 1] \<and>
   full_text_search ascii_lower vault_v two_notes [] 0
     = [TextHit (u ''old'') (u ''old.md'') (u ''...old...'') 1] \<and>
   search_by_title ascii_lower vault_v two_notes [] 20
     = [TitleHit (u ''old'') (u ''old.md'') 1, TitleHit (u ''new'') (u ''new.md'') 2]"
proof -
  have h: "ascii_lower [] = []" by (simp add: ascii_lower_def)
  note t = C9_empty_query_matches_every_note [where lw = ascii_lower, OF h,
      where vault = vault_v and fs = two_notes]
  from t [where limit = 0] t [where limit = 20] h two_notes_every
  show ?thesis by simp
qed

section \<open>Tag extraction\<close>

lemma hash_not_tag_char: "\<not> tag_char alnum hash"
  by (simp add: tag_char_def word_char_def hash_def)

lemma takeWhile_stop: "\<not> P h \<Longrightarrow> takeWhile P (cs @ h # rest) = takeWhile P cs"
  by (induction cs) simp_all

lemma dropWhile_stop: "\<not> P h \<Longrightarrow> dropWhile P (cs @ h # rest) = dropWhile P cs @ h # rest"
  by (induction cs) simp_all

lemma findall_tags_append_hash:
  "findall_tags alnum (xs @ hash # rest) = findall_tags alnum xs @ findall_tags alnum (hash # rest)"
proof (induction alnum xs rule: findall_tags.induct)
  case (1 alnum)
  show ?case by simp
next
  case (2 alnum c cs)
  note tw = takeWhile_stop [of "tag_char alnum" hash cs rest, OF hash_not_tag_char]
  note dw = dropWhile_stop [of "tag_char alnum" hash cs rest, OF hash_not_tag_char]
  show ?case
  proof (cases "c = hash \<and> takeWhile (tag_char alnum) cs \<noteq> []")
    case True
    with 2(1) have "findall_tags alnum (dropWhile (tag_char alnum) cs @ hash # rest)
        = findall_tags alnum (dropWhile (tag_char alnum) cs) @ findall_tags alnum (hash # rest)"
      by simp
    with True show ?thesis by (simp add: tw dw)
  next
    case False
    with 2(2) have "findall_tags alnum (cs @ hash # rest)
        = findall_tags alnum cs @ findall_tags alnum (hash # rest)"
      by simp
    with False show ?thesis by (auto simp: tw)
  qed
qed

lemma findall_tags_at_marker:
  assumes "t \<noteq> []" "\<forall>c\<in>set t. tag_char alnum c" "post = [] \<or> \<not> tag_char alnum (hd post)"
  shows "findall_tags alnum (hash # t @ post) = t # findall_tags alnum post"
proof -
  have "takeWhile (tag_char alnum) (t @ post) = t"
    using assms(2,3) by (cases post) (simp_all add: takeWhile_append2)
  moreover have "dropWhile (tag_char alnum) (t @ post) = post"
    using assms(2,3) by (cases post) (simp_all add: dropWhile_append2)
  ultimately show ?thesis using assms(1) by simp
qed

lemma findall_tags_sound:
  "t \<in> set (findall_tags alnum s) \<Longrightarrow>
     \<exists>pre post. s = pre @ hash # t @ post \<and> t \<noteq> [] \<and> (\<forall>c\<in>set t. tag_char alnum c) \<and>
        (post = [] \<or> \<not> tag_char alnum (hd post))"
proof (induction alnum s rule: findall_tags.induct)
  case (1 alnum)
  then show ?case by simp
next
  case (2 alnum c cs)
  let ?P = "tag_char alnum"
  show ?case
  proof (cases "c = hash \<and> takeWhile ?P cs \<noteq> []")
    case True
    with 2(3) have "t = takeWhile ?P cs \<or> t \<in> set (findall_tags alnum (dropWhile ?P cs))"
      by simp
    then show ?thesis
    proof
      assume t: "t = takeWhile ?P cs"
      have "c # cs = [] @ hash # t @ dropWhile ?P cs" using True t by simp
      moreover have "dropWhile ?P cs = [] \<or> \<not> ?P (hd (dropWhile ?P cs))"
        using hd_dropWhile [of ?P cs] by blast
      moreover have "\<forall>c\<in>set t. ?P c" using t by (auto dest: set_takeWhileD)
      ultimately show ?thesis using True t by blast
    next
      assume "t \<in> set (findall_tags alnum (dropWhile ?P cs))"
      with 2(1) True obtain pre post where
        p: "dropWhile ?P cs = pre @ hash # t @ post" "t \<noteq> []" "\<forall>c\<in>set t. ?P c"
          "post = [] \<or> \<not> ?P (hd post)"
        by blast
      have "c # cs = (c # takeWhile ?P cs @ pre) @ hash # t @ post"
        using p(1) takeWhile_dropWhile_id [of ?P cs] by (metis append.assoc append_Cons)
      with p show ?thesis by blast
    qed
  next
    case False
    with 2(3) have "t \<in> set (findall_tags alnum cs)" by auto
    with 2(2) False obtain pre post where
      p: "cs = pre @ hash # t @ post" "t \<noteq> []" "\<forall>c\<in>set t. ?P c"
        "post = [] \<or> \<not> ?P (hd post)"
      by blast
    then have "c # cs = (c # pre) @ hash # t @ post" by simp
    with p show ?thesis by blast
  qed
qed

lemma findall_tags_iff:
  "t \<in> set (findall_tags alnum s) \<longleftrightarrow>
     (\<exists>pre post. s = pre @ hash # t @ post \<and> t \<noteq> [] \<and> (\<forall>c\<in>set t. tag_char alnum c) \<and>
        (post = [] \<or> \<not> tag_char alnum (hd post)))"
proof
  assume "t \<in> set (findall_tags alnum s)"
  then show "\<exists>pre post. s = pre @ hash # t @ post \<and> t \<noteq> [] \<and> (\<forall>c\<in>set t. tag_char alnum c) \<and>
        (post = [] \<or> \<not> tag_char alnum (hd post))"
    by (rule findall_tags_sound)
next
  assume "\<exists>pre post. s = pre @ hash # t @ post \<and> t \<noteq> [] \<and> (\<forall>c\<in>set t. tag_char alnum c) \<and>
        (post = [] \<or> \<not> tag_char alnum (hd post))"
  then obtain pre post where p: "s = pre @ hash # t @ post" "t \<noteq> []"
      "\<forall>c\<in>set t. tag_char alnum c" "post = [] \<or> \<not> tag_char alnum (hd post)"
    by blast
  have "findall_tags alnum s = findall_tags alnum pre @ t # findall_tags alnum post"
    unfolding p(1) findall_tags_append_hash findall_tags_at_marker [OF p(2,3,4)] ..
  then show "t \<in> set (findall_tags alnum s)" by simp
qed

lemma map_of_add_tag:
  "map_of (add_tag name tag tags) = (map_of tags)(tag \<mapsto> names_of tags tag @ [name])"
  by (cases "map_of tags tag") (simp_all add: add_tag_def names_of_def update_conv')

lemma names_of_add_tag:
  "names_of (add_tag name tag tags) t = names_of tags t @ (if t = tag then [name] else [])"
  by (simp add: names_of_def map_of_add_tag)

lemma dom_add_tag: "dom (map_of (add_tag name tag tags)) = insert tag (dom (map_of tags))"
  by (simp add: map_of_add_tag)

lemma names_of_fold_add_tag:
  "names_of (fold (add_tag name) ts tags) t = names_of tags t @ replicate (count_list ts t) name"
  by (induction ts arbitrary: tags) (simp_all add: names_of_add_tag)

lemma dom_fold_add_tag:
  "dom (map_of (fold (add_tag name) ts tags)) = set ts \<union> dom (map_of tags)"
  by (induction ts arbitrary: tags) (simp_all add: dom_add_tag)

lemma names_of_tags_loop:
  "names_of (tags_loop alnum fs es tags) t
     = names_of tags t @ concat (map (tag_occurrences alnum fs t) es)"
  by (induction es arbitrary: tags)
    (simp_all add: tag_occurrences_def names_of_fold_add_tag split: sum.splits)

lemma dom_tags_loop:
  "t \<in> dom (map_of (tags_loop alnum fs es tags)) \<longleftrightarrow>
     t \<in> dom (map_of tags) \<or> concat (map (tag_occurrences alnum fs t) es) \<noteq> []"
proof (induction es arbitrary: tags)
  case Nil
  show ?case by simp
next
  case (Cons e es)
  show ?case
  proof (cases "is_hidden_or_system e")
    case True
    then show ?thesis using Cons.IH [of tags] by (simp add: tag_occurrences_def)
  next
    case False
    show ?thesis
    proof (cases "read_text fs e")
      case (Inl x)
      with False show ?thesis using Cons.IH [of tags] by (simp add: tag_occurrences_def)
    next
      case (Inr content)
      have "t \<in> set (findall_tags alnum content) \<longleftrightarrow> 0 < count_list (findall_tags alnum content) t"
        using count_list_0_iff [of "findall_tags alnum content" t] by auto
      with False Inr show ?thesis
        using Cons.IH [of "fold (add_tag (stem e)) (findall_tags alnum content) tags"]
        by (auto simp: tag_occurrences_def dom_fold_add_tag)
    qed
  qed
qed

lemma map_of_get_tags:
  "map_of (get_tags alnum vault fs) t =
     (let names = concat (map (tag_occurrences alnum fs t) (rglob fs vault md_pattern))
      in if names = [] then None else Some names)"
proof -
  let ?names = "concat (map (tag_occurrences alnum fs t) (rglob fs vault md_pattern))"
  have "names_of [] t = []" by (simp add: names_of_def)
  then have n: "names_of (get_tags alnum vault fs) t = ?names"
    by (simp add: get_tags_def names_of_tags_loop)
  have d: "t \<in> dom (map_of (get_tags alnum vault fs)) \<longleftrightarrow> ?names \<noteq> []"
    by (simp add: get_tags_def dom_tags_loop)
  show ?thesis
  proof (cases "?names = []")
    case True
    with d have "map_of (get_tags alnum vault fs) t = None" by auto
    with True show ?thesis by simp
  next
    case False
    with d obtain l where l: "map_of (get_tags alnum vault fs) t = Some l" by auto
    with n have "l = ?names" by (simp add: names_of_def)
    with l False show ?thesis by simp
  qed
qed



lemma review_findall:
  "findall_tags alnum review_text = [u ''project'', [54532, 47196, 51229, 53944]]"
  by (simp add: review_text_def u_def hash_def tag_char_def word_char_def)

section \<open>Claims about tag extraction\<close>

text \<open>
  C7: the tags found in a content are exactly the longest runs of one or more tag
  characters (word characters, or any code point from U+0080 to U+FFFF) that follow a
  marker character; getTags maps each tag, without its marker, to the display names of
  the non-hidden readable notes that contain it, in scan order, once per occurrence
  (so a tag repeated in one note repeats that note's name), and has no key for a tag
  that occurs nowhere; the content \<open>Review #project and #...\<close> (the second tag in
  Hangul) yields the tags \<open>project\<close> and the Hangul word.
\<close>

theorem C7_tags_mapping:
  "(t \<in> set (findall_tags alnum s) \<longleftrightarrow>
      (\<exists>pre post. s = pre @ hash # t @ post \<and> t \<noteq> [] \<and> (\<forall>c\<in>set t. tag_char alnum c) \<and>
         (post = [] \<or> \<not> tag_char alnum (hd post))))
   \<and> map_of (get_tags alnum vault fs) t =
       (let names = concat (map (tag_occurrences alnum fs t) (rglob fs vault md_pattern))
        in if names = [] then None else Some names)
   \<and> findall_tags alnum review_text = [u ''project'', [54532, 47196, 51229, 53944]]"
  by (intro conjI findall_tags_iff map_of_get_tags review_findall)

lemma two_texts_scan:
  "rglob (two_texts a b) vault_v md_pattern
     = [[u ''v'', u ''review.md''], [u ''v'', u ''twice.md'']]"
  "\<not> is_hidden_or_system [u ''v'', u ''review.md'']"
  "\<not> is_hidden_or_system [u ''v'', u ''twice.md'']"
  "read_text (two_texts a b) [u ''v'', u ''review.md''] = Inr (universal_newlines a)"
  "read_text (two_texts a b) [u ''v'', u ''twice.md''] = Inr (universal_newlines b)"
  "stem [u ''v'', u ''review.md''] = u ''review''"
  "stem [u ''v'', u ''twice.md''] = u ''twice''"
  by code_simp+

lemma review_texts:
  "universal_newlines review_text = review_text"
  "universal_newlines twice_text = twice_text"
  "findall_tags alnum twice_text = [u ''project'', u ''project'']"
  by (simp_all add: review_text_def twice_text_def u_def hash_def tag_char_def word_char_def)

lemma review_occurrences:
  "concat (map (tag_occurrences alnum review_fs (u ''project''))
     (rglob review_fs vault_v md_pattern))
     = [u ''review'', u ''twice'', u ''twice'']"
  "concat (map (tag_occurrences alnum review_fs [54532, 47196, 51229, 53944])
     (rglob review_fs vault_v md_pattern))
     = [u ''review'']"
  by (simp_all add: review_fs_def two_texts_scan tag_occurrences_def review_texts review_findall)
    (simp_all add: u_def)

theorem C7_tags_mapping_witness:
  "map_of (get_tags (\<lambda>c. False) vault_v review_fs) (u ''project'')
     = Some [u ''review'', u ''twice'', u ''twice''] \<and>
   map_of (get_tags (\<lambda>c. False) vault_v review_fs) [54532, 47196, 51229, 53944]
     = Some [u ''review''] \<and>
   findall_tags (\<lambda>c. False) review_text = [u ''project'', [54532, 47196, 51229, 53944]]"
proof -
  note p = C7_tags_mapping [where alnum = "\<lambda>c. False" and vault = vault_v and fs = review_fs
      and s = review_text and t = "u ''project''"]
  note h = C7_tags_mapping [where alnum = "\<lambda>c. False" and vault = vault_v and fs = review_fs
      and s = review_text and t = "[54532, 47196, 51229, 53944]"]
  have a: "map_of (get_tags (\<lambda>c. False) vault_v review_fs) (u ''project'')
     = Some [u ''review'', u ''twice'', u ''twice'']"
    using p [THEN conjunct2, THEN conjunct1] unfolding review_occurrences Let_def by simp
  have b: "map_of (get_tags (\<lambda>c. False) vault_v review_fs) [54532, 47196, 51229, 53944]
     = Some [u ''review'']"
    using h [THEN conjunct2, THEN conjunct1] unfolding review_occurrences Let_def by simp
  from a b p [THEN conjunct2, THEN conjunct2] show ?thesis
    by (intro conjI)
qed

section \<open>The containment test on path strings\<close>

lemma join_simps [simp]: "join [] = []" "join (s # p) = slash # s @ join p"
  by (simp_all add: join_def)

lemma join_hd: "join p = [] \<or> hd (join p) = slash"
  by (cases p) simp_all

lemma prefix_seg_block:
  assumes "slash \<notin> set v" "w = [] \<or> hd w = slash"
  shows "prefix v (t @ w) \<longleftrightarrow> prefix v t"
proof
  assume "prefix v (t @ w)"
  then have "prefix v t \<or> (\<exists>us. v = t @ us \<and> prefix us w)"
    by (simp add: prefix_append)
  then show "prefix v t"
  proof
    assume "prefix v t"
    then show ?thesis .
  next
    assume "\<exists>us. v = t @ us \<and> prefix us w"
    then obtain us where us: "v = t @ us" "prefix us w" by blast
    show ?thesis
    proof (cases us)
      case Nil
      with us show ?thesis by simp
    next
      case (Cons a as)
      with us(2) have "w \<noteq> []" "hd w = a" by (auto simp: prefix_def)
      with assms(2) have "a = slash" by auto
      with Cons us(1) assms(1) show ?thesis by simp
    qed
  qed
next
  assume "prefix v t"
  then show "prefix v (t @ w)" by (simp add: prefix_prefix)
qed

lemma prefix_seg_sep:
  assumes "slash \<notin> set v" "slash \<notin> set t" "w = [] \<or> hd w = slash"
  shows "prefix (v @ slash # r) (t @ w) \<longleftrightarrow> v = t \<and> prefix (slash # r) w"
proof
  assume "prefix (v @ slash # r) (t @ w)"
  then obtain z where z: "t @ w = v @ slash # r @ z" by (auto simp: prefix_def)
  then consider us where "t = v @ us" "us @ w = slash # r @ z"
    | us where "t @ us = v" "w = us @ slash # r @ z"
    by (auto simp: append_eq_append_conv2)
  then show "v = t \<and> prefix (slash # r) w"
  proof cases
    case 1
    show ?thesis
    proof (cases us)
      case Nil
      with 1 show ?thesis by (simp add: prefix_def)
    next
      case (Cons a as)
      with 1(2) have "a = slash" by simp
      with Cons 1(1) assms(2) show ?thesis by simp
    qed
  next
    case 2
    show ?thesis
    proof (cases us)
      case Nil
      with 2 show ?thesis by (simp add: prefix_def)
    next
      case (Cons a as)
      with 2(2) assms(3) have "a = slash" by auto
      with Cons 2(1) assms(1) show ?thesis by auto
    qed
  qed
next
  assume "v = t \<and> prefix (slash # r) w"
  then show "prefix (v @ slash # r) (t @ w)" by simp
qed

lemma prefix_join_iff:
  assumes "wf_path V" "wf_path T"
  shows "prefix (join V) (join T) \<longleftrightarrow>
           V = [] \<or> (\<exists>t ts. T = butlast V @ t # ts \<and> prefix (last V) t)"
  using assms
proof (induction V arbitrary: T)
  case Nil
  show ?case by simp
next
  case (Cons v vs)
  from Cons.prems have v: "slash \<notin> set v" "wf_path vs" by (simp_all add: wf_path_def)
  show ?case
  proof (cases T)
    case Nil
    then show ?thesis by simp
  next
    case (Cons t ts)
    with Cons.prems have t: "slash \<notin> set t" "wf_path ts" by (simp_all add: wf_path_def)
    show ?thesis
    proof (cases "vs = []")
      case True
      have "prefix v (t @ join ts) \<longleftrightarrow> prefix v t"
        by (rule prefix_seg_block [OF v(1) join_hd])
      with True Cons show ?thesis by simp
    next
      case False
      then obtain v' vs' where vs: "vs = v' # vs'" by (cases vs) auto
      have "prefix (v @ slash # v' @ join vs') (t @ join ts)
          \<longleftrightarrow> v = t \<and> prefix (slash # v' @ join vs') (join ts)"
        by (rule prefix_seg_sep [OF v(1) t(1) join_hd])
      then have "prefix (join (v # vs)) (join T) \<longleftrightarrow> v = t \<and> prefix (join vs) (join ts)"
        using Cons vs by simp
      also have "prefix (join vs) (join ts) \<longleftrightarrow>
          vs = [] \<or> (\<exists>t' ts'. ts = butlast vs @ t' # ts' \<and> prefix (last vs) t')"
        by (rule Cons.IH [OF v(2) t(2)])
      finally show ?thesis using False Cons by auto
    qed
  qed
qed


lemma str_path_join: "str_path p = (if p = [] then [slash] else join p)"
  by (simp add: str_path_def join_def)

lemma tail_decomposition:
  assumes "V \<noteq> []"
  shows "(\<exists>t ts. T = butlast V @ t # ts \<and> prefix (last V) t)
           \<longleftrightarrow> prefix V T \<or> sibling_extends V T"
proof
  assume "\<exists>t ts. T = butlast V @ t # ts \<and> prefix (last V) t"
  then obtain t ts where T: "T = butlast V @ t # ts" "prefix (last V) t" by blast
  show "prefix V T \<or> sibling_extends V T"
  proof (cases "t = last V")
    case True
    with T(1) assms have "T = V @ ts" by simp
    then show ?thesis by simp
  next
    case False
    with T(2) have "strict_prefix (last V) t" by (simp add: strict_prefix_def)
    moreover from assms have "length (butlast V) = length V - 1" by simp
    ultimately have "sibling_extends V T"
      using assms T(1) by (simp add: sibling_extends_def nth_append)
    then show ?thesis ..
  qed
next
  assume "prefix V T \<or> sibling_extends V T"
  then show "\<exists>t ts. T = butlast V @ t # ts \<and> prefix (last V) t"
  proof
    assume "prefix V T"
    then obtain ts where "T = V @ ts" by (auto simp: prefix_def)
    with assms have "T = butlast V @ last V # ts" by simp
    then show ?thesis by blast
  next
    assume s: "sibling_extends V T"
    then have "length V \<le> length T" by (simp add: sibling_extends_def)
    with assms have "length V - 1 < length T" by (cases V) auto
    moreover from s have "take (length V - 1) T = butlast V"
        "prefix (last V) (T ! (length V - 1))"
      by (auto simp: sibling_extends_def strict_prefix_def)
    ultimately have n: "length V - 1 < length T" "take (length V - 1) T = butlast V"
        "prefix (last V) (T ! (length V - 1))"
      by blast+
    from id_take_nth_drop [OF n(1)] n(2)
    have "T = butlast V @ T ! (length V - 1) # drop (Suc (length V - 1)) T" by simp
    with n(3) show ?thesis by blast
  qed
qed

lemma prefix_str_path_iff:
  assumes "wf_path V" "wf_path T"
  shows "prefix (str_path V) (str_path T) \<longleftrightarrow> prefix V T \<or> sibling_extends V T"
proof (cases "V = []")
  case True
  then show ?thesis by (cases T) (simp_all add: str_path_join)
next
  case False
  then obtain v vs where V: "V = v # vs" by (cases V) auto
  with assms(1) have "v \<noteq> []" by (simp add: wf_path_def)
  show ?thesis
  proof (cases "T = []")
    case True
    with V \<open>v \<noteq> []\<close> show ?thesis
      by (simp add: str_path_join sibling_extends_def)
  next
    case nonempty: False
    with False have "prefix (str_path V) (str_path T) \<longleftrightarrow> prefix (join V) (join T)"
      by (simp add: str_path_join)
    also have "\<dots> \<longleftrightarrow> V = [] \<or> (\<exists>t ts. T = butlast V @ t # ts \<and> prefix (last V) t)"
      by (rule prefix_join_iff [OF assms])
    also have "\<dots> \<longleftrightarrow> prefix V T \<or> sibling_extends V T"
      using False tail_decomposition [OF False] by simp
    finally show ?thesis .
  qed
qed

lemma split_on_no_sep: "w \<in> set (split_on c s) \<Longrightarrow> c \<notin> set w"
proof (induction s arbitrary: w)
  case Nil
  then show ?case by simp
next
  case (Cons x xs)
  show ?case
  proof (cases "x = c")
    case True
    with Cons show ?thesis by auto
  next
    case False
    show ?thesis
    proof (cases "split_on c xs")
      case Nil
      with False Cons.prems show ?thesis by simp
    next
      case (Cons y ys)
      with False Cons.prems Cons.IH [of y] Cons.IH [of w] show ?thesis by auto
    qed
  qed
qed

lemma wf_segments: "wf_path (segments s)"
  by (auto simp: wf_path_def segments_def list_all_iff dest: split_on_no_sep)

lemma wf_append: "wf_path (p @ q) \<longleftrightarrow> wf_path p \<and> wf_path q"
  by (simp add: wf_path_def)

lemma wf_butlast: "wf_path p \<Longrightarrow> wf_path (butlast p)"
  by (auto simp: wf_path_def list_all_iff dest: in_set_butlastD)

lemma wf_foldl_step: "wf_path cur \<Longrightarrow> wf_path raw \<Longrightarrow> wf_path (foldl step cur raw)"
proof (induction raw arbitrary: cur)
  case Nil
  then show ?case by simp
next
  case (Cons s raw)
  then have "wf_path (step cur s)" "wf_path raw"
    by (simp_all add: step_def wf_butlast wf_append) (simp_all add: wf_path_def)
  with Cons.IH show ?case by simp
qed

lemma wf_resolve: "wf_path raw \<Longrightarrow> wf_path (resolve raw)"
  unfolding resolve_def by (rule wf_foldl_step) (simp_all add: wf_path_def)

lemma wf_joinpath: "wf_path vault \<Longrightarrow> wf_path (joinpath vault p)"
  by (simp add: joinpath_def wf_segments wf_append)

lemma inside_vault_iff:
  assumes "wf_path vault"
  shows "inside_vault vault (joinpath vault p) \<longleftrightarrow> \<not> escapes vault p"
  unfolding inside_vault_def escapes_def
  using prefix_str_path_iff [OF wf_resolve [OF assms] wf_resolve [OF wf_joinpath [OF assms]]]
  by simp

section \<open>Claims about path containment\<close>

text \<open>
  C1, amended: for every path \<open>p\<close> (the vault root given by well-formed segments) whose
  resolved location is outside the vault root and not at or below a sibling of the
  root whose name extends the root's own name: read and delete return \<open>File not found\<close>
  when \<open>p\<close> does not exist and \<open>Access denied\<close> when it does, and delete leaves the
  filesystem as it was; write, which judges \<open>p\<close> with the Markdown extension appended
  when it lacks one, returns \<open>Access denied\<close> and leaves the filesystem as it was.
\<close>

theorem C1_escaping_path_denied:
  assumes "wf_path vault"
  shows "(escapes vault p \<longrightarrow>
            read_note vault fs p
              = Error (if exists fs (joinpath vault p) then access_denied else not_found p) \<and>
            delete_note vault now fs p
              = (Error (if exists fs (joinpath vault p) then access_denied else not_found p), fs))
         \<and> (escapes vault (with_md p) \<longrightarrow>
            write_note vault now fs p content = (Error access_denied, fs))"
  using inside_vault_iff [OF assms]
  by (simp add: read_note_def delete_note_def write_note_def Let_def)

lemma home_facts:
  "wf_path vault_ab"
  "escapes vault_ab (u ''../secret.md'')"
  "escapes vault_ab (with_md (u ''../secret.md''))"
  "exists home_fs (joinpath vault_ab (u ''../secret.md''))"
  "escapes vault_ab (u ''../nofile.md'')"
  "\<not> prefix (resolve vault_ab) (resolve (joinpath vault_ab (u ''../nofile.md'')))"
  "\<not> exists home_fs (joinpath vault_ab (u ''../nofile.md''))"
  by code_simp+

theorem C1_escaping_path_denied_witness:
  "wf_path vault_ab \<and> escapes vault_ab (u ''../secret.md'') \<and>
   read_note vault_ab home_fs (u ''../secret.md'') = Error access_denied \<and>
   delete_note vault_ab 9 home_fs (u ''../secret.md'') = (Error access_denied, home_fs) \<and>
   write_note vault_ab 9 home_fs (u ''../secret.md'') (u ''overwritten'')
     = (Error access_denied, home_fs)"
  using C1_escaping_path_denied [OF home_facts(1), of "u ''../secret.md''" home_fs 9
      "u ''overwritten''"] home_facts
  by simp

text \<open>
  C1, as stated: every operation returns \<open>Access denied\<close> for a path that resolves
  outside the vault. From the vault \<open>/a/b\<close> the path \<open>../nofile.md\<close> resolves to
  \<open>/a/nofile.md\<close>, outside the vault, where nothing exists: read and delete test
  existence first and return \<open>File not found\<close>.
\<close>

theorem C1_not_found_before_denied_counterexample:
  "\<not> prefix (resolve vault_ab) (resolve (joinpath vault_ab (u ''../nofile.md''))) \<and>
   read_note vault_ab home_fs (u ''../nofile.md'') = Error (u ''File not found: ../nofile.md'') \<and>
   read_note vault_ab home_fs (u ''../nofile.md'') \<noteq> Error access_denied \<and>
   delete_note vault_ab 9 home_fs (u ''../nofile.md'')
     = (Error (u ''File not found: ../nofile.md''), home_fs)"
  by code_simp

text \<open>
  The slip the amended C1 leaves out: the containment test compares path strings, so a
  sibling directory whose name extends the vault's passes it. From the vault \<open>/a/b\<close>,
  writing \<open>../bb/x.md\<close> resolves to \<open>/a/bb/x.md\<close>, outside the vault, and is carried out:
  the directory \<open>/a/bb\<close> and the file are created.
\<close>

lemma sibling_write_escapes:
  "\<not> prefix (resolve vault_ab) (resolve (joinpath vault_ab (u ''../bb/x.md''))) \<and>
   sibling_extends (resolve vault_ab) (resolve (joinpath vault_ab (u ''../bb/x.md''))) \<and>
   write_note vault_ab 9 home_fs (u ''../bb/x.md'') (u ''out'')
     = (Saved (u ''../bb/x.md'') (u ''Note saved: ../bb/x.md''),
        home_fs @ [([u ''a'', u ''bb''], Dir 9),
                   ([u ''a'', u ''bb'', u ''x.md''], File 9 (Text (u ''out'')))])"
proof -
  let ?p = "u ''../bb/x.md''"
  let ?fs1 = "home_fs @ [([u ''a'', u ''bb''], Dir 9)]"
  have a: "\<not> prefix (resolve vault_ab) (resolve (joinpath vault_ab ?p))"
      "sibling_extends (resolve vault_ab) (resolve (joinpath vault_ab ?p))"
      "with_md ?p = ?p"
      "inside_vault vault_ab (joinpath vault_ab ?p)"
      "mkdir_parents 9 home_fs (parent (joinpath vault_ab ?p)) = (None, ?fs1)"
      "open_w 9 ?fs1 (joinpath vault_ab ?p)
         = Inr ([u ''a'', u ''bb'', u ''x.md''],
                ?fs1 @ [([u ''a'', u ''bb'', u ''x.md''], File 9 (Text []))])"
    by code_simp+
  have b: "AList.update [u ''a'', u ''bb'', u ''x.md''] (File 9 (Text data))
             (home_fs @ [([u ''a'', u ''bb''], Dir 9),
                         ([u ''a'', u ''bb'', u ''x.md''], File 9 (Text []))])
           = home_fs @ [([u ''a'', u ''bb''], Dir 9),
                        ([u ''a'', u ''bb'', u ''x.md''], File 9 (Text data))]" for data
    by code_simp
  have "write_text 9 ?fs1 (joinpath vault_ab ?p) (u ''out'')
          = (None, ?fs1 @ [([u ''a'', u ''bb'', u ''x.md''], File 9 (Text (u ''out'')))])"
    by (simp add: write_text_ok [OF a(6) encodable_ascii] b)
  moreover have "u ''Note saved: '' @ ?p = u ''Note saved: ../bb/x.md''"
    by (simp add: u_def)
  ultimately have "write_note vault_ab 9 home_fs ?p (u ''out'')
     = (Saved ?p (u ''Note saved: ../bb/x.md''),
        ?fs1 @ [([u ''a'', u ''bb'', u ''x.md''], File 9 (Text (u ''out'')))])"
    by (simp add: write_note_def Let_def a del: append_assoc)
  with a(1,2) show ?thesis by simp
qed

lemma write_note_Saved:
  assumes "write_note vault now fs p c = (Saved q msg, fs')"
  shows "\<exists>fs1 t fs2. q = with_md p \<and> msg = u ''Note saved: '' @ q \<and>
           inside_vault vault (joinpath vault q) \<and>
           mkdir_parents now fs (parent (joinpath vault q)) = (None, fs1) \<and>
           open_w now fs1 (joinpath vault q) = Inr (t, fs2) \<and> encodable c \<and>
           fs' = AList.update t (File now (Text c)) fs2"
  using assms
  by (auto simp: write_note_def write_text_def Let_def
      split: if_splits prod.splits option.splits sum.splits)

section \<open>Claims about writing and reading a note\<close>

text \<open>
  C5, amended: whenever write(p, c) succeeds, it reports the path \<open>q\<close> it wrote, which is
  \<open>p\<close> with the Markdown extension appended when \<open>p\<close> lacks it, and read(q) on the
  filesystem it leaves returns the note with content \<open>c\<close> in which every \<open>\r\n\<close> and every
  lone \<open>\r\<close> has become \<open>\n\<close> (exactly \<open>c\<close> when \<open>c\<close> has no carriage return), the write's
  clock reading as modified time and the UTF-8 length of \<open>c\<close> as size.
\<close>

theorem C5_write_then_read:
  assumes "write_note vault now fs p c = (Saved q msg, fs')"
  shows "q = with_md p \<and>
         read_note vault fs' q
           = NoteRead (stem (joinpath vault q)) q (universal_newlines c) now
               (sum_list (map utf8_width c)) \<and>
         (13 \<notin> set c \<longrightarrow> universal_newlines c = c)"
proof -
  from write_note_Saved [OF assms] obtain fs1 t fs2 where
    w: "q = with_md p" "inside_vault vault (joinpath vault q)"
      "open_w now fs1 (joinpath vault q) = Inr (t, fs2)"
      "fs' = AList.update t (File now (Text c)) fs2"
    by blast
  from open_w_then_update [OF w(3), of "Text c"] w(4)
  have l: "lookup fs' (joinpath vault q) = Inr t" "node_at fs' t = Some (File now (Text c))"
    by simp_all
  then have "read_note vault fs' q
           = NoteRead (stem (joinpath vault q)) q (universal_newlines c) now
               (sum_list (map utf8_width c))"
    by (simp add: read_note_def Let_def exists_def w(2) read_text_def stat_def)
  with w(1) universal_newlines_id show ?thesis by blast
qed


lemma write_note_eval:
  assumes "inside_vault vault (joinpath vault (with_md p))"
    and "mkdir_parents now fs (parent (joinpath vault (with_md p))) = (None, fs1)"
    and "open_w now fs1 (joinpath vault (with_md p)) = Inr (t, fs2)"
    and "encodable c"
  shows "write_note vault now fs p c
           = (Saved (with_md p) (u ''Note saved: '' @ with_md p),
              AList.update t (File now (Text c)) fs2)"
  using assms by (simp add: write_note_def Let_def write_text_ok)

lemma write_plain_note:
  "with_md (u ''note'') = u ''note.md''"
  "inside_vault vault_v (joinpath vault_v (u ''note.md''))"
  "mkdir_parents 9 two_notes (parent (joinpath vault_v (u ''note.md''))) = (None, two_notes)"
  "open_w 9 two_notes (joinpath vault_v (u ''note.md''))
     = Inr ([u ''v'', u ''note.md''],
            two_notes @ [([u ''v'', u ''note.md''], File 9 (Text []))])"
  "AList.update [u ''v'', u ''note.md''] (File 9 (Text c))
     (two_notes @ [([u ''v'', u ''note.md''], File 9 (Text []))])
     = two_notes @ [([u ''v'', u ''note.md''], File 9 (Text c))]"
  "read_note vault_v (two_notes @ [([u ''v'', u ''note.md''], File 9 (Text c))]) (u ''note'')
     = Error (u ''File not found: note'')"
  by code_simp+

lemma write_cr_note:
  "with_md (u ''cr.md'') = u ''cr.md''"
  "inside_vault vault_v (joinpath vault_v (u ''cr.md''))"
  "mkdir_parents 9 two_notes (parent (joinpath vault_v (u ''cr.md''))) = (None, two_notes)"
  "open_w 9 two_notes (joinpath vault_v (u ''cr.md''))
     = Inr ([u ''v'', u ''cr.md''],
            two_notes @ [([u ''v'', u ''cr.md''], File 9 (Text []))])"
  "AList.update [u ''v'', u ''cr.md''] (File 9 (Text c))
     (two_notes @ [([u ''v'', u ''cr.md''], File 9 (Text []))])
     = two_notes @ [([u ''v'', u ''cr.md''], File 9 (Text c))]"
  "read_note vault_v (two_notes @ [([u ''v'', u ''cr.md''], File 9 (Text [97, 13, 10, 98]))])
     (u ''cr.md'')
     = NoteRead (u ''cr'') (u ''cr.md'') [97, 10, 98] 9 4"
  by code_simp+

text \<open>
  C5, as stated: write(p, c) followed by read(p) returns exactly \<open>c\<close>. Two inputs where it
  does not: the path \<open>note\<close> is written as \<open>note.md\<close>, so reading \<open>note\<close> finds no file;
  and the content \<open>a\r\nb\<close> written to \<open>cr.md\<close> (four bytes on disk) is read back as
  \<open>a\nb\<close>.
\<close>

theorem C5_extension_and_newlines_counterexample:
  "fst (write_note vault_v 9 two_notes (u ''note'') (u ''hi''))
     = Saved (u ''note.md'') (u ''Note saved: note.md'') \<and>
   read_note vault_v (snd (write_note vault_v 9 two_notes (u ''note'') (u ''hi''))) (u ''note'')
     = Error (u ''File not found: note'') \<and>
   fst (write_note vault_v 9 two_notes (u ''cr.md'') [97, 13, 10, 98])
     = Saved (u ''cr.md'') (u ''Note saved: cr.md'') \<and>
   read_note vault_v (snd (write_note vault_v 9 two_notes (u ''cr.md'') [97, 13, 10, 98]))
       (u ''cr.md'')
     = NoteRead (u ''cr'') (u ''cr.md'') [97, 10, 98] 9 4"
proof -
  have e: "encodable [97, 13, 10, 98]" by (simp add: encodable_def)
  have m: "u ''Note saved: '' @ u ''note.md'' = u ''Note saved: note.md''"
      "u ''Note saved: '' @ u ''cr.md'' = u ''Note saved: cr.md''"
    by (simp_all add: u_def)
  have 1: "write_note vault_v 9 two_notes (u ''note'') (u ''hi'')
      = (Saved (u ''note.md'') (u ''Note saved: note.md''),
         two_notes @ [([u ''v'', u ''note.md''], File 9 (Text (u ''hi'')))])"
    using write_note_eval [of vault_v "u ''note''" 9 two_notes two_notes
        "[u ''v'', u ''note.md'']" _ "u ''hi''"] write_plain_note(1-5) encodable_ascii m
    by simp
  have 2: "write_note vault_v 9 two_notes (u ''cr.md'') [97, 13, 10, 98]
      = (Saved (u ''cr.md'') (u ''Note saved: cr.md''),
         two_notes @ [([u ''v'', u ''cr.md''], File 9 (Text [97, 13, 10, 98]))])"
    using write_note_eval [of vault_v "u ''cr.md''" 9 two_notes two_notes
        "[u ''v'', u ''cr.md'']" _ "[97, 13, 10, 98]"] write_cr_note(1-5) e m
    by simp
  show ?thesis
    unfolding 1 2 by (simp add: write_plain_note(6) write_cr_note(6))
qed

lemma write_nested_note:
  "with_md (u ''ideas/plan'') = u ''ideas/plan.md''"
  "inside_vault vault_v (joinpath vault_v (u ''ideas/plan.md''))"
  "mkdir_parents 9 two_notes (parent (joinpath vault_v (u ''ideas/plan.md'')))
     = (None, two_notes @ [([u ''v'', u ''ideas''], Dir 9)])"
  "open_w 9 (two_notes @ [([u ''v'', u ''ideas''], Dir 9)])
     (joinpath vault_v (u ''ideas/plan.md''))
     = Inr ([u ''v'', u ''ideas'', u ''plan.md''],
            two_notes @ [([u ''v'', u ''ideas''], Dir 9),
                         ([u ''v'', u ''ideas'', u ''plan.md''], File 9 (Text []))])"
  "AList.update [u ''v'', u ''ideas'', u ''plan.md''] (File 9 (Text c))
     (two_notes @ [([u ''v'', u ''ideas''], Dir 9),
                   ([u ''v'', u ''ideas'', u ''plan.md''], File 9 (Text []))])
     = two_notes @ [([u ''v'', u ''ideas''], Dir 9),
                    ([u ''v'', u ''ideas'', u ''plan.md''], File 9 (Text c))]"
  "stem (joinpath vault_v (u ''ideas/plan.md'')) = u ''plan''"
  "universal_newlines plan_text = plan_text"
  "sum_list (map utf8_width plan_text) = 12"
  by code_simp+

theorem C5_write_then_read_witness:
  "write_note vault_v 9 two_notes (u ''ideas/plan'') plan_text
     = (Saved (u ''ideas/plan.md'') (u ''Note saved: ideas/plan.md''),
        two_notes @ [([u ''v'', u ''ideas''], Dir 9),
                     ([u ''v'', u ''ideas'', u ''plan.md''],
                      File 9 (Text plan_text))]) \<and>
   read_note vault_v
       (two_notes @ [([u ''v'', u ''ideas''], Dir 9),
                     ([u ''v'', u ''ideas'', u ''plan.md''],
                      File 9 (Text plan_text))])
       (u ''ideas/plan.md'')
     = NoteRead (u ''plan'') (u ''ideas/plan.md'') plan_text 9 12"
proof -
  let ?c = plan_text
  have e: "encodable ?c" by (simp add: plan_text_def encodable_def u_def)
  have m: "u ''Note saved: '' @ u ''ideas/plan.md'' = u ''Note saved: ideas/plan.md''"
    by (simp add: u_def)
  have w: "write_note vault_v 9 two_notes (u ''ideas/plan'') ?c
     = (Saved (u ''ideas/plan.md'') (u ''Note saved: ideas/plan.md''),
        two_notes @ [([u ''v'', u ''ideas''], Dir 9),
                     ([u ''v'', u ''ideas'', u ''plan.md''], File 9 (Text ?c))])"
    using write_note_eval [of vault_v "u ''ideas/plan''" 9 two_notes
        "two_notes @ [([u ''v'', u ''ideas''], Dir 9)]"
        "[u ''v'', u ''ideas'', u ''plan.md'']" _ ?c] write_nested_note(1-5) e m
    by simp
  note r = C5_write_then_read [OF w, THEN conjunct2, THEN conjunct1]
  from r w show ?thesis
    by (simp add: write_nested_note(6-8))
qed

section \<open>Moving a note to the trash\<close>

lemma split_on_nonempty: "split_on c s \<noteq> []"
  by (induction s) (auto split: list.splits)

lemma split_on_append_sep: "split_on c (a @ c # b) = split_on c a @ split_on c b"
proof (induction a)
  case Nil
  show ?case by simp
next
  case (Cons x a)
  obtain w ws where w: "split_on c a = w # ws"
    using split_on_nonempty [of c a] by (cases "split_on c a") auto
  with Cons show ?case by simp
qed

lemma trash_literals:
  "u ''.trash/'' = u ''.trash'' @ [slash]"
  "split_on slash (u ''.trash'') = [u ''.trash'']"
  "u ''.trash'' \<noteq> []" "u ''.trash'' \<noteq> u ''.''" "u ''.trash'' \<noteq> u ''..''"
  "\<not> is_absolute (u ''.trash'')"
  "\<not> is_absolute (u ''.trash'' @ slash # p)"
  by (simp_all add: u_def slash_def is_absolute_def)

lemma segments_trash: "segments (u ''.trash/'' @ p) = u ''.trash'' # segments p"
  by (simp add: segments_def trash_literals split_on_append_sep)

lemma joinpath_trash:
  assumes "\<not> is_absolute p"
  shows "joinpath (joinpath vault (u ''.trash'')) p = vault @ u ''.trash'' # segments p"
    and "joinpath vault (u ''.trash/'' @ p) = vault @ u ''.trash'' # segments p"
proof -
  have "segments (u ''.trash'') = [u ''.trash'']"
    by (simp add: segments_def trash_literals)
  with assms show "joinpath (joinpath vault (u ''.trash'')) p = vault @ u ''.trash'' # segments p"
    by (simp add: joinpath_def trash_literals)
  have "\<not> is_absolute (u ''.trash/'' @ p)"
    using trash_literals(7) [of p] by (simp add: trash_literals(1))
  then show "joinpath vault (u ''.trash/'' @ p) = vault @ u ''.trash'' # segments p"
    by (simp add: joinpath_def segments_trash)
qed

lemma prefix_str_path_append: "prefix (str_path vault) (str_path (vault @ rest))"
  by (cases vault; cases rest) (simp_all add: str_path_def)

lemma inside_vault_plain:
  "u ''..'' \<notin> set vault \<Longrightarrow> u ''..'' \<notin> set rest \<Longrightarrow> inside_vault vault (vault @ rest)"
  by (simp add: inside_vault_def resolve_def foldl_step_plain prefix_str_path_append)

lemma stem_last: "p \<noteq> [] \<Longrightarrow> q \<noteq> [] \<Longrightarrow> last p = last q \<Longrightarrow> stem p = stem q"
  by (simp add: stem_def)

lemma read_note_NoteRead:
  assumes "read_note vault fs p = NoteRead name p' content m sz"
  shows "\<exists>c t. lookup fs (joinpath vault p) = Inr c \<and> node_at fs c = Some (File m (Text t)) \<and>
           content = universal_newlines t \<and> sz = st_size (File m (Text t)) \<and>
           name = stem (joinpath vault p) \<and> p' = p"
  using assms
  by (auto simp: read_note_def Let_def read_text_def stat_def
      split: if_splits sum.splits option.splits node.splits body.splits prod.splits)

lemma delete_note_Trashed:
  assumes "delete_note vault now fs p = (Trashed msg, fs')"
  shows "\<exists>fs1. mkdir_parents now fs (parent (joinpath (joinpath vault (u ''.trash'')) p)) = (None, fs1) \<and>
           os_rename fs1 (joinpath vault p) (joinpath (joinpath vault (u ''.trash'')) p) = Inr fs'"
  using assms
  by (auto simp: delete_note_def Let_def
      split: if_splits sum.splits option.splits prod.splits)


lemma target_plain:
  assumes "target fs raw = Inr d" "u ''..'' \<notin> set raw"
  shows "d = raw \<and> raw \<noteq> [] \<and> lookup fs (butlast raw) = Inr (butlast raw) \<and>
         is_dir_node (node_at fs (butlast raw))"
proof -
  from assms(1) obtain d0 where d: "raw \<noteq> []" "lookup fs (butlast raw) = Inr d0"
      "is_dir_node (node_at fs d0)" "d = d0 @ [last raw]"
    by (auto simp: target_def split: if_splits sum.splits)
  from assms(2) have "u ''..'' \<notin> set (butlast raw)" by (auto dest: in_set_butlastD)
  from lookup_plain [OF this d(2)] have "d0 = butlast raw" by simp
  with d show ?thesis by simp
qed

text \<open>
  For a path without \<open>..\<close> segments (relative, naming something below a vault root that
  has no \<open>..\<close> segment either) delete does what C4 says: if read(p) returned the note
  and delete(p) succeeds, then read(p) fails with \<open>File not found\<close> and reading the
  mirrored path \<open>.trash/p\<close> returns the same name, content, modified time and size.
\<close>

theorem delete_moves_plain_note:
  assumes plain: "u ''..'' \<notin> set vault" "u ''..'' \<notin> set (segments p)"
    and rel: "\<not> is_absolute p" "segments p \<noteq> []"
    and before: "read_note vault fs p = NoteRead name p content m sz"
    and del: "delete_note vault now fs p = (Trashed msg, fs')"
  shows "read_note vault fs' p = Error (not_found p) \<and>
         read_note vault fs' (u ''.trash/'' @ p)
           = NoteRead name (u ''.trash/'' @ p) content m sz"
proof -
  define fp where "fp = vault @ segments p"
  define tp where "tp = vault @ u ''.trash'' # segments p"
  have fp: "joinpath vault p = fp" using rel(1) by (simp add: joinpath_def fp_def)
  have tp: "joinpath (joinpath vault (u ''.trash'')) p = tp"
      "joinpath vault (u ''.trash/'' @ p) = tp"
    using joinpath_trash [OF rel(1), of vault] by (simp_all add: tp_def)
  have pl: "u ''..'' \<notin> set fp" "u ''..'' \<notin> set tp"
    using plain trash_literals(5) by (auto simp: fp_def tp_def)
  have ne: "fp \<noteq> tp" "fp \<noteq> []" "tp \<noteq> []" using rel(2) by (auto simp: fp_def tp_def)
  have la: "last tp = last fp" using rel(2) by (simp add: fp_def tp_def)
  have ins: "inside_vault vault tp"
    unfolding tp_def
    by (rule inside_vault_plain [OF plain(1)]) (use plain(2) trash_literals(5) in auto)
  from read_note_NoteRead [OF before] fp obtain c t where
    r: "lookup fs fp = Inr c" "node_at fs c = Some (File m (Text t))"
      "content = universal_newlines t" "sz = st_size (File m (Text t))" "name = stem fp"
    by auto
  from lookup_plain [OF pl(1) r(1)] have c: "c = fp" by simp
  from delete_note_Trashed [OF del] fp tp(1) obtain fs1 where
    d: "mkdir_parents now fs (parent tp) = (None, fs1)" "os_rename fs1 fp tp = Inr fs'"
    by auto
  from mkdir_parents_grown [OF d(1)] have g: "grown now fs fs1" .
  have n1: "node_at fs1 fp = Some (File m (Text t))"
    using g r(2) c by (simp add: grown_def)
  from d(2) obtain s where s: "target fs1 fp = Inr s"
    by (auto simp: os_rename_def split: sum.splits)
  from target_plain [OF s pl(1)] have s': "s = fp" by simp
  from d(2) s s' n1 obtain dd where dd: "target fs1 tp = Inr dd"
    by (auto simp: os_rename_def split: sum.splits)
  from target_plain [OF dd pl(2)] have dd': "dd = tp"
      and par: "lookup fs1 (butlast tp) = Inr (butlast tp)"
        "is_dir_node (node_at fs1 (butlast tp))"
    by simp_all
  from d(2) s s' n1 dd dd' ne(1)
  have nd: "\<not> is_dir_node (node_at fs1 tp)"
    and fs': "fs' = AList.update tp (File m (Text t)) (AList.delete fp fs1)"
    by (auto simp: os_rename_def split: if_splits)
  have node': "node_at fs' q =
      (if q = tp then Some (File m (Text t)) else if q = fp then None else node_at fs1 q)" for q
    using ne by (auto simp: fs' node_at_def update_conv' delete_conv')
  \<comment> \<open>the note is gone from its path\<close>
  have "\<not> exists fs' fp"
  proof
    assume "exists fs' fp"
    then obtain c' where "lookup fs' fp = Inr c'"
      by (auto simp: exists_def split: sum.splits)
    from lookup_plain [OF pl(1) this] have "node_at fs' fp \<noteq> None" by simp
    with node' [of fp] ne(1) show False by simp
  qed
  then have gone: "read_note vault fs' p = Error (not_found p)"
    by (simp add: read_note_def Let_def fp)
  \<comment> \<open>and it is read at the mirrored path\<close>
  have keep: "node_at fs' q = node_at fs1 q" if "is_dir_node (node_at fs1 q)" for q
    using that n1 nd node' [of q] by auto
  have w: "lookup fs' (butlast tp) = Inr (butlast tp)"
    unfolding lookup_def
    by (rule walk_keeps_dirs [OF keep]) (use par in \<open>simp_all add: lookup_def\<close>)
  have dir: "is_dir_node (node_at fs' (butlast tp))"
    using keep [OF par(2)] par(2) by simp
  have "last tp \<in> set tp" using ne(3) by (rule last_in_set)
  with pl(2) have "last tp \<noteq> u ''..''" by auto
  then have "step (butlast tp) (last tp) = butlast tp @ [last tp]"
    by (simp only: step_def if_False)
  also have "\<dots> = tp" using ne(3) by (rule append_butlast_last_id)
  finally have st: "step (butlast tp) (last tp) = tp" .
  have "lookup fs' (butlast tp @ [last tp]) = Inr tp"
    unfolding lookup_snoc using w dir st node' [of tp] by simp
  with ne(3) have lt: "lookup fs' tp = Inr tp" by simp
  from ne la have sm: "stem tp = stem fp" by (intro stem_last)
  from ins lt node' [of tp] r(3,4,5) sm
  have "read_note vault fs' (u ''.trash/'' @ p)
           = NoteRead name (u ''.trash/'' @ p) content m sz"
    by (simp add: read_note_def Let_def tp(2) exists_def read_text_def stat_def)
  with gone show ?thesis by simp
qed

lemma delete_plain_example:
  "u ''..'' \<notin> set vault_ab" "u ''..'' \<notin> set (segments (u ''x.md''))"
  "\<not> is_absolute (u ''x.md'')" "segments (u ''x.md'') \<noteq> []"
  "read_note vault_ab home_fs (u ''x.md'') = NoteRead (u ''x'') (u ''x.md'') (u ''hello'') 5 5"
  "delete_note vault_ab 9 home_fs (u ''x.md'') = (Trashed (u ''Moved to trash: x.md''), trashed_fs)"
  by code_simp+

theorem delete_moves_plain_note_witness:
  "delete_note vault_ab 9 home_fs (u ''x.md'') = (Trashed (u ''Moved to trash: x.md''), trashed_fs) \<and>
   read_note vault_ab trashed_fs (u ''x.md'') = Error (u ''File not found: x.md'') \<and>
   read_note vault_ab trashed_fs (u ''.trash/x.md'')
     = NoteRead (u ''x'') (u ''.trash/x.md'') (u ''hello'') 5 5"
proof -
  have "not_found (u ''x.md'') = u ''File not found: x.md''"
    "u ''.trash/'' @ u ''x.md'' = u ''.trash/x.md''"
    by (simp_all add: not_found_def u_def)
  with delete_moves_plain_note [OF delete_plain_example] delete_plain_example(6)
  show ?thesis by simp
qed

section \<open>Claims about delete\<close>

text \<open>
  C4 at a path with \<open>..\<close> segments. From the vault \<open>/a/b\<close>, the path \<open>../../a/b/x.md\<close> names
  the in-vault note \<open>/a/b/x.md\<close>: it exists and its resolved location passes the
  containment test. Delete builds the trash path by joining \<open>.trash\<close> and the same
  string, \<open>/a/b/.trash/../../a/b/x.md\<close>, which the operating system resolves to
  \<open>/a/a/b/x.md\<close>: the directories \<open>/a/a\<close> and \<open>/a/a/b\<close> are created outside the vault and
  the note is moved there. Delete reports success and read(p) then fails as the claim
  says, but reading the mirrored path under the trash folder is denied (it resolves
  outside the vault), and nothing is at \<open>.trash/x.md\<close>.
\<close>

theorem C4_dotdot_path_moved_out_of_vault:
  "read_note vault_ab home_fs (u ''../../a/b/x.md'')
     = NoteRead (u ''x'') (u ''../../a/b/x.md'') (u ''hello'') 5 5 \<and>
   delete_note vault_ab 9 home_fs (u ''../../a/b/x.md'')
     = (Trashed (u ''Moved to trash: ../../a/b/x.md''), escaped_fs) \<and>
   read_note vault_ab escaped_fs (u ''../../a/b/x.md'')
     = Error (u ''File not found: ../../a/b/x.md'') \<and>
   read_note vault_ab escaped_fs (u ''.trash/../../a/b/x.md'') = Error access_denied \<and>
   read_note vault_ab escaped_fs (u ''.trash/x.md'') = Error (u ''File not found: .trash/x.md'')"
  by code_simp

text \<open>
  A second path of that kind: from the vault \<open>/v\<close>, \<open>../../v/old.md\<close> climbs past the root,
  so the trash path resolves to the note itself; the rename of a file onto itself does
  nothing, delete reports success, and the note is still read at \<open>p\<close>.
\<close>

lemma delete_onto_itself:
  "delete_note vault_v 9 two_notes (u ''../../v/old.md'')
     = (Trashed (u ''Moved to trash: ../../v/old.md''),
        two_notes @ [([u ''v'', u ''.trash''], Dir 9)]) \<and>
   read_note vault_v (two_notes @ [([u ''v'', u ''.trash''], Dir 9)]) (u ''../../v/old.md'')
     = NoteRead (u ''old'') (u ''../../v/old.md'') (u ''old'') 1 3"
  by code_simp

end
